theory Spec2Isabelle
  imports Complex_Main "HOL-Library.Multiset" "HOL-Library.Sublist"
begin

section \<open>Scrabble as adversarial search: the data model of \<^verbatim>\<open>L5_utils.py\<close>\<close>

text \<open>
  Letters, board cells and words are Python strings: a tile's letter is a one-character
  string and an empty cell is the empty string. Coordinates are list indices. Scores and
  player identifiers are Python integers.
\<close>

type_synonym tile = "nat \<times> nat \<times> string"
type_synonym board = "string list list"

definition BOARD_SIZE :: nat where
  "BOARD_SIZE = 15"

definition RACK_SIZE :: nat where
  "RACK_SIZE = 7"

text \<open>\<^verbatim>\<open>LETTER_VALUES\<close>, as the association list of the dictionary literal.\<close>

definition LETTER_VALUES :: "(string \<times> int) list" where
  "LETTER_VALUES =
    [(''A'', 1), (''B'', 3), (''C'', 3), (''D'', 2), (''E'', 1), (''F'', 4), (''G'', 2),
     (''H'', 4), (''I'', 1), (''J'', 8), (''K'', 5), (''L'', 1), (''M'', 3), (''N'', 1),
     (''O'', 1), (''P'', 3), (''Q'', 10), (''R'', 1), (''S'', 1), (''T'', 1), (''U'', 1),
     (''V'', 4), (''W'', 4), (''X'', 8), (''Y'', 4), (''Z'', 10), (''_'', 0)]"

text \<open>\<^verbatim>\<open>LETTER_VALUES.get(letter, 0)\<close>\<close>

definition letter_value :: "string \<Rightarrow> int" where
  "letter_value l = (case map_of LETTER_VALUES l of Some v \<Rightarrow> v | None \<Rightarrow> 0)"

text \<open>\<^verbatim>\<open>PREMIUM_BOARD\<close>: 0 plain, 2 double letter, 3 triple letter, 4 double word,
  5 triple word.\<close>

definition PREMIUM_BOARD :: "nat list list" where
  "PREMIUM_BOARD =
    [[0, 2, 0, 0, 0, 0, 0, 0, 0, 0, 0, 0, 0, 2, 0],
     [2, 0, 0, 0, 0, 3, 0, 0, 0, 3, 0, 0, 0, 0, 2],
     [0, 0, 4, 0, 0, 0, 2, 0, 2, 0, 0, 0, 4, 0, 0],
     [0, 0, 0, 5, 0, 0, 0, 2, 0, 0, 0, 5, 0, 0, 0],
     [0, 0, 0, 0, 4, 0, 0, 0, 0, 0, 4, 0, 0, 0, 0],
     [0, 3, 0, 0, 0, 3, 0, 0, 0, 3, 0, 0, 0, 3, 0],
     [0, 0, 2, 0, 0, 0, 2, 0, 2, 0, 0, 0, 2, 0, 0],
     [0, 0, 0, 2, 0, 0, 0, 4, 0, 0, 0, 2, 0, 0, 0],
     [0, 0, 2, 0, 0, 0, 2, 0, 2, 0, 0, 0, 2, 0, 0],
     [0, 3, 0, 0, 0, 3, 0, 0, 0, 3, 0, 0, 0, 3, 0],
     [0, 0, 0, 0, 4, 0, 0, 0, 0, 0, 4, 0, 0, 0, 0],
     [0, 0, 0, 5, 0, 0, 0, 2, 0, 0, 0, 5, 0, 0, 0],
     [0, 0, 4, 0, 0, 0, 2, 0, 2, 0, 0, 0, 4, 0, 0],
     [2, 0, 0, 0, 0, 3, 0, 0, 0, 3, 0, 0, 0, 0, 2],
     [0, 2, 0, 0, 0, 0, 0, 0, 0, 0, 0, 0, 0, 2, 0]]"

subsection \<open>The lexicon\<close>

text \<open>
  \<^verbatim>\<open>DICTIONARY\<close> is read from a word file that is not part of the sources, so it is a
  parameter \<open>D\<close> of everything that consults it. \<^verbatim>\<open>str.upper\<close> is modelled on ASCII
  letters, the only ones a tile carries.
\<close>

definition upper_char :: "char \<Rightarrow> char" where
  "upper_char c =
     (let n = (of_char c :: nat)
      in if of_char CHR ''a'' \<le> n \<and> n \<le> of_char CHR ''z'' then char_of (n - 32) else c)"

definition upper :: "string \<Rightarrow> string" where
  "upper w = map upper_char w"

definition is_valid_word :: "string set \<Rightarrow> string \<Rightarrow> bool" where
  "is_valid_word D word \<longleftrightarrow> upper word \<in> D"

subsection \<open>Moves\<close>

record Move =
  tiles_placed :: "tile list"
  score :: int
  is_pass :: bool

text \<open>\<^verbatim>\<open>Move(tiles_placed, score)\<close> and \<^verbatim>\<open>Move([], 0, is_pass=True)\<close>\<close>

definition Place :: "tile list \<Rightarrow> int \<Rightarrow> Move" where
  "Place ts sc = \<lparr>tiles_placed = ts, score = sc, is_pass = False\<rparr>"

definition Pass :: Move where
  "Pass = \<lparr>tiles_placed = [], score = 0, is_pass = True\<rparr>"

text \<open>
  \<^verbatim>\<open>Move.__eq__\<close>: \<^verbatim>\<open>all(tile1 == tile2 for tile1, tile2 in zip(...))\<close>, then the
  scores and the pass flags. \<^verbatim>\<open>zip\<close> stops at the end of the shorter list.
\<close>

definition move_eq :: "Move \<Rightarrow> Move \<Rightarrow> bool" where
  "move_eq self val \<longleftrightarrow>
     list_all (\<lambda>(tile1, tile2). tile1 = tile2) (zip (tiles_placed self) (tiles_placed val))
     \<and> score self = score val \<and> is_pass self = is_pass val"

text \<open>
  \<^verbatim>\<open>Move.__hash__\<close> is \<^verbatim>\<open>hash((tuple(self.tiles_placed), self.is_pass))\<close>. The value
  hashed is \<open>hash_key\<close>; Python's \<^verbatim>\<open>hash\<close> on tuples is the parameter \<open>h\<close>.
\<close>

definition hash_key :: "Move \<Rightarrow> tile list \<times> bool" where
  "hash_key self = (tiles_placed self, is_pass self)"

definition move_hash :: "(tile list \<times> bool \<Rightarrow> int) \<Rightarrow> Move \<Rightarrow> int" where
  "move_hash h self = h (hash_key self)"

subsection \<open>Game state\<close>

text \<open>
  \<^verbatim>\<open>ScrabbleState\<close>: the two dictionaries are maps from the player identifier. The
  constructor sets \<^verbatim>\<open>passes_in_a_row\<close> to 0.
\<close>

record ScrabbleState =
  board :: board
  tile_pool :: "string list"
  racks :: "int \<rightharpoonup> string list"
  current_player :: int
  scores :: "int \<rightharpoonup> int"
  passes_in_a_row :: int

text \<open>\<^verbatim>\<open>board[row][col]\<close>\<close>

definition cell :: "board \<Rightarrow> nat \<Rightarrow> nat \<Rightarrow> string" where
  "cell b row col = b ! row ! col"

text \<open>
  The model follows the code on states whose board is the 15 by 15 grid that
  \<^verbatim>\<open>create_new_game\<close> builds, whose cells hold at most one character, whose racks and
  pool hold one-character tiles, and whose dictionaries have the keys 1 and 2. Outside
  these states Python raises \<^verbatim>\<open>IndexError\<close> or \<^verbatim>\<open>KeyError\<close> where the model reads
  \<open>!\<close> or \<open>the\<close>; the theorems below assume \<open>wf_state\<close> wherever such a read occurs.
\<close>

definition wf_board :: "board \<Rightarrow> bool" where
  "wf_board b \<longleftrightarrow>
     length b = BOARD_SIZE \<and> list_all (\<lambda>row. length row = BOARD_SIZE) b
     \<and> list_all (\<lambda>row. list_all (\<lambda>c. length c \<le> 1) row) b"

definition wf_tiles :: "string list \<Rightarrow> bool" where
  "wf_tiles ts \<longleftrightarrow> list_all (\<lambda>t. length t = 1) ts"

definition wf_state :: "ScrabbleState \<Rightarrow> bool" where
  "wf_state s \<longleftrightarrow>
     wf_board (board s) \<and> wf_tiles (tile_pool s)
     \<and> (case racks s 1 of None \<Rightarrow> False | Some r \<Rightarrow> wf_tiles r)
     \<and> (case racks s 2 of None \<Rightarrow> False | Some r \<Rightarrow> wf_tiles r)
     \<and> scores s 1 \<noteq> None \<and> scores s 2 \<noteq> None
     \<and> (current_player s = 1 \<or> current_player s = 2)"

text \<open>\<^verbatim>\<open>is_terminal\<close> and \<^verbatim>\<open>get_utility\<close>\<close>

definition is_terminal :: "ScrabbleState \<Rightarrow> bool" where
  "is_terminal self \<longleftrightarrow> length (tile_pool self) = 0 \<or> passes_in_a_row self \<ge> 2"

definition get_utility :: "ScrabbleState \<Rightarrow> int \<Rightarrow> int" where
  "get_utility self maximizing_player_id =
     (let opponent_id = 3 - maximizing_player_id
      in the (scores self maximizing_player_id) - the (scores self opponent_id))"

subsection \<open>Words on the board\<close>

text \<open>
  The two scanning loops of \<^verbatim>\<open>_get_word_at\<close> (and of \<^verbatim>\<open>_calculate_score\<close>), over a
  line of the board, that is a row read by column or a column read by row:
  \<^verbatim>\<open>while start > 0 and line[start - 1] != "": start -= 1\<close> and
  \<^verbatim>\<open>while end < BOARD_SIZE - 1 and line[end + 1] != "": end += 1\<close>.
\<close>

fun word_start :: "(nat \<Rightarrow> string) \<Rightarrow> nat \<Rightarrow> nat" where
  "word_start line 0 = 0"
| "word_start line (Suc k) = (if line k \<noteq> [] then word_start line k else Suc k)"

function word_end :: "(nat \<Rightarrow> string) \<Rightarrow> nat \<Rightarrow> nat" where
  "word_end line k =
     (if k < BOARD_SIZE - 1 \<and> line (k + 1) \<noteq> [] then word_end line (k + 1) else k)"
  by pat_completeness auto
termination
  by (relation "measure (\<lambda>(line, k). BOARD_SIZE - 1 - k)") auto

declare word_end.simps [simp del]

definition get_word_at :: "board \<Rightarrow> nat \<Rightarrow> nat \<Rightarrow> bool \<Rightarrow> string" where
  "get_word_at b row col horizontal =
     (if horizontal then
        (let start_col = word_start (\<lambda>c. cell b row c) col;
             end_col = word_end (\<lambda>c. cell b row c) col
         in concat (map (\<lambda>c. cell b row c) [start_col..<end_col + 1]))
      else
        (let start_row = word_start (\<lambda>r. cell b r col) row;
             end_row = word_end (\<lambda>r. cell b r col) row
         in concat (map (\<lambda>r. cell b r col) [start_row..<end_row + 1])))"

text \<open>
  The scratch board: \<^verbatim>\<open>temp_board = [row[:] for row in self.board]\<close> followed by
  \<^verbatim>\<open>temp_board[row][col] = letter\<close> for every tile.
\<close>

definition put_tile :: "board \<Rightarrow> tile \<Rightarrow> board" where
  "put_tile b t = (case t of (row, col, letter) \<Rightarrow> b[row := (b ! row)[col := letter]])"

definition place_tiles :: "board \<Rightarrow> tile list \<Rightarrow> board" where
  "place_tiles b tiles = foldl put_tile b tiles"

subsection \<open>Scoring\<close>

text \<open>
  One iteration of a scoring loop of \<^verbatim>\<open>_calculate_score\<close>: the letter's value, the
  premium of the cell when the tile there is new, accumulated into the pair of the word
  score and the word multiplier. The four loops of the source (main word and cross word,
  each horizontal and vertical) have this same body.
\<close>

definition score_step ::
  "(nat \<Rightarrow> string) \<Rightarrow> (nat \<Rightarrow> nat) \<Rightarrow> (nat \<Rightarrow> bool) \<Rightarrow> int \<times> int \<Rightarrow> nat \<Rightarrow> int \<times> int" where
  "score_step line premium_at is_new acc k =
     (case acc of (word_score, word_multiplier) \<Rightarrow>
        (let letter_score = letter_value (line k) in
         if is_new k then
           (let premium = premium_at k in
            if premium = 2 then (word_score + letter_score * 2, word_multiplier)
            else if premium = 3 then (word_score + letter_score * 3, word_multiplier)
            else if premium = 4 then (word_score + letter_score, word_multiplier * 2)
            else if premium = 5 then (word_score + letter_score, word_multiplier * 3)
            else (word_score + letter_score, word_multiplier))
         else (word_score + letter_score, word_multiplier)))"

definition score_word ::
  "(nat \<Rightarrow> string) \<Rightarrow> (nat \<Rightarrow> nat) \<Rightarrow> (nat \<Rightarrow> bool) \<Rightarrow> nat list \<Rightarrow> int" where
  "score_word line premium_at is_new ks =
     (case foldl (score_step line premium_at is_new) (0, 1) ks of
        (word_score, word_multiplier) \<Rightarrow> word_score * word_multiplier)"

text \<open>The body of the loop \<^verbatim>\<open># Score cross-words\<close> for one placed tile.\<close>

definition cross_score :: "board \<Rightarrow> bool \<Rightarrow> tile \<Rightarrow> int" where
  "cross_score temp_board horizontal t =
     (case t of (row, col, letter) \<Rightarrow>
        if horizontal then
          (let cross_word = get_word_at temp_board row col False in
           if length cross_word > 1 then
             (let start_row = word_start (\<lambda>r. cell temp_board r col) row
              in score_word (\<lambda>r. cell temp_board r col) (\<lambda>r. PREMIUM_BOARD ! r ! col)
                   (\<lambda>r. r = row) [start_row..<start_row + length cross_word])
           else 0)
        else
          (let cross_word = get_word_at temp_board row col True in
           if length cross_word > 1 then
             (let start_col = word_start (\<lambda>c. cell temp_board row c) col
              in score_word (\<lambda>c. cell temp_board row c) (\<lambda>c. PREMIUM_BOARD ! row ! c)
                   (\<lambda>c. c = col) [start_col..<start_col + length cross_word])
           else 0))"

text \<open>
  \<^verbatim>\<open>_calculate_score\<close>. The block for a single tile computes two words and ends in
  \<^verbatim>\<open>pass\<close>, so it has no effect; the direction is \<^verbatim>\<open>len(set(rows)) == 1\<close>.
\<close>

definition main_score :: "board \<Rightarrow> bool \<Rightarrow> tile list \<Rightarrow> int" where
  "main_score temp_board horizontal tiles =
     (let rows = map fst tiles; cols = map (fst \<circ> snd) tiles in
      if horizontal then
        (let row = hd rows;
             start_col = word_start (\<lambda>c. cell temp_board row c) (Min (set cols));
             end_col = word_end (\<lambda>c. cell temp_board row c) (Max (set cols))
         in score_word (\<lambda>c. cell temp_board row c) (\<lambda>c. PREMIUM_BOARD ! row ! c)
              (\<lambda>c. list_ex (\<lambda>(r, col, l). r = row \<and> col = c) tiles)
              [start_col..<end_col + 1])
      else
        (let col = hd cols;
             start_row = word_start (\<lambda>r. cell temp_board r col) (Min (set rows));
             end_row = word_end (\<lambda>r. cell temp_board r col) (Max (set rows))
         in score_word (\<lambda>r. cell temp_board r col) (\<lambda>r. PREMIUM_BOARD ! r ! col)
              (\<lambda>r. list_ex (\<lambda>(row, c, l). row = r \<and> c = col) tiles)
              [start_row..<end_row + 1]))"

definition calculate_score :: "board \<Rightarrow> tile list \<Rightarrow> int" where
  "calculate_score b tiles =
     (if tiles = [] then 0
      else
        (let rows = map fst tiles;
             horizontal = (length (remdups rows) = 1);
             temp_board = place_tiles b tiles;
             total_score = main_score temp_board horizontal tiles;
             total_score = total_score + sum_list (map (cross_score temp_board horizontal) tiles);
             total_score = (if length tiles = 7 then total_score + 50 else total_score)
         in total_score))"

subsection \<open>Move generation\<close>

text \<open>
  \<^verbatim>\<open>itertools.permutations(pool, r)\<close>: the \<open>r\<close>-length arrangements of the positions
  of \<open>pool\<close>, in lexicographic order of the positions; equal letters at different
  positions give equal arrangements more than once.
\<close>

fun permutations :: "'a list \<Rightarrow> nat \<Rightarrow> 'a list list" where
  "permutations pool 0 = [[]]"
| "permutations pool (Suc r) =
     concat (map (\<lambda>i. map ((#) (pool ! i)) (permutations (take i pool @ drop (Suc i) pool) r))
       [0..<length pool])"

text \<open>
  \<^verbatim>\<open>_generate_first_move\<close>: for every length and every permutation that spells a
  valid word, the horizontal and the vertical placements through the centre, which are
  \<open>first_move_placements\<close>. The bounds \<^verbatim>\<open>max(0, center - length + 1)\<close> and
  \<^verbatim>\<open>min(center + 1, BOARD_SIZE - length + 1)\<close> are written with the addition first, so
  that the subtraction on \<open>nat\<close> truncates exactly where Python's \<^verbatim>\<open>max(0, ...)\<close> or
  the empty range does.
\<close>

definition first_move_placements :: "board \<Rightarrow> string list \<Rightarrow> nat \<Rightarrow> Move list" where
  "first_move_placements b perm len =
     (let center = 7 in
      concat (map (\<lambda>start_col.
        if start_col \<le> center \<and> center < start_col + len then
          (let placed = map (\<lambda>i. (center, start_col + i, perm ! i)) [0..<len]
           in [Place placed (calculate_score b placed)])
        else [])
        [(center + 1) - len..<min (center + 1) ((BOARD_SIZE + 1) - len)])
      @ concat (map (\<lambda>start_row.
        if start_row \<le> center \<and> center < start_row + len then
          (let placed = map (\<lambda>i. (start_row + i, center, perm ! i)) [0..<len]
           in [Place placed (calculate_score b placed)])
        else [])
        [(center + 1) - len..<min (center + 1) ((BOARD_SIZE + 1) - len)]))"

definition generate_first_move :: "string set \<Rightarrow> board \<Rightarrow> string list \<Rightarrow> Move list" where
  "generate_first_move D b rack =
     concat (map (\<lambda>len.
       concat (map (\<lambda>perm.
         if \<not> is_valid_word D (concat perm) then []
         else first_move_placements b perm len)
         (permutations rack len)))
       [2..<length rack + 1])"

text \<open>\<^verbatim>\<open>_find_anchors\<close>: the empty squares with a filled neighbour inside the board.\<close>

definition adjacent_filled :: "board \<Rightarrow> nat \<Rightarrow> nat \<Rightarrow> bool" where
  "adjacent_filled b r c \<longleftrightarrow>
     (0 < r \<and> c < BOARD_SIZE \<and> cell b (r - 1) c \<noteq> [])
     \<or> (r + 1 < BOARD_SIZE \<and> c < BOARD_SIZE \<and> cell b (r + 1) c \<noteq> [])
     \<or> (r < BOARD_SIZE \<and> 0 < c \<and> cell b r (c - 1) \<noteq> [])
     \<or> (r < BOARD_SIZE \<and> c + 1 < BOARD_SIZE \<and> cell b r (c + 1) \<noteq> [])"

definition find_anchors :: "board \<Rightarrow> (nat \<times> nat) list" where
  "find_anchors b =
     concat (map (\<lambda>r.
       concat (map (\<lambda>c. if cell b r c = [] \<and> adjacent_filled b r c then [(r, c)] else [])
         [0..<BOARD_SIZE]))
       [0..<BOARD_SIZE])"

text \<open>
  The loop of \<^verbatim>\<open>_build_words_at_anchor\<close> over the cells of the candidate word: an empty
  cell takes the letter as a new tile, a cell holding the same letter is skipped, any
  other cell is a conflict (\<^verbatim>\<open>valid = False; break\<close>), here \<open>None\<close>. The
  result is the list \<^verbatim>\<open>tiles_placed\<close>.
\<close>

fun lay_word :: "board \<Rightarrow> tile list \<Rightarrow> tile list option" where
  "lay_word b [] = Some []"
| "lay_word b ((row, col, letter) # rest) =
     (if cell b row col = [] then map_option ((#) (row, col, letter)) (lay_word b rest)
      else if cell b row col = letter then lay_word b rest
      else None)"

text \<open>The rack check: every used tile is removed from a copy of the rack in turn.\<close>

fun can_place :: "string list \<Rightarrow> string list \<Rightarrow> bool" where
  "can_place rack_copy [] = True"
| "can_place rack_copy (tile # rest) =
     (if tile \<in> set rack_copy then can_place (remove1 tile rack_copy) rest else False)"

text \<open>\<^verbatim>\<open>_validate_placement\<close>: the cross word at every placed tile.\<close>

definition validate_placement :: "string set \<Rightarrow> board \<Rightarrow> tile list \<Rightarrow> bool \<Rightarrow> bool" where
  "validate_placement D b tiles horizontal =
     (let temp_board = place_tiles b tiles in
      list_all (\<lambda>(row, col, letter).
        (let cross_word = get_word_at temp_board row col (\<not> horizontal)
         in \<not> (length cross_word > 1 \<and> \<not> is_valid_word D cross_word))) tiles)"

text \<open>
  The part of \<^verbatim>\<open>_build_words_at_anchor\<close> that its horizontal and its vertical branch
  share, from \<^verbatim>\<open># Build the placement\<close> on: \<open>word_cells\<close> lists the cells of the candidate
  word with the letters of the permutation.
\<close>

definition try_placement ::
  "string set \<Rightarrow> board \<Rightarrow> string list \<Rightarrow> nat \<Rightarrow> nat \<Rightarrow> bool \<Rightarrow> tile list \<Rightarrow> Move list" where
  "try_placement D b rack anchor_row anchor_col horizontal word_cells =
     (case lay_word b word_cells of
        None \<Rightarrow> []
      | Some placed \<Rightarrow>
          if length placed = 0 then []
          else if \<not> can_place rack (map (snd \<circ> snd) placed) then []
          else if \<not> is_valid_word D
                    (get_word_at (place_tiles b placed) anchor_row anchor_col horizontal)
               then []
          else if validate_placement D b placed horizontal
               then [Place placed (calculate_score b placed)]
          else [])"

text \<open>
  \<^verbatim>\<open>_build_words_at_anchor\<close>: the loop over the positions of the anchor within the
  word is \<open>anchor_placements\<close>; \<^verbatim>\<open>start_col < 0\<close> is \<open>anchor_col < anchor_pos_in_word\<close>.
\<close>

definition anchor_placements ::
  "string set \<Rightarrow> board \<Rightarrow> string list \<Rightarrow> nat \<Rightarrow> nat \<Rightarrow> bool \<Rightarrow> string list \<Rightarrow> nat \<Rightarrow> Move list"
  where
  "anchor_placements D b rack anchor_row anchor_col horizontal perm word_len =
     concat (map (\<lambda>anchor_pos_in_word.
       if horizontal then
         (if anchor_col < anchor_pos_in_word
             \<or> anchor_col - anchor_pos_in_word + word_len > BOARD_SIZE then []
          else
            (let start_col = anchor_col - anchor_pos_in_word
             in try_placement D b rack anchor_row anchor_col True
                  (map (\<lambda>i. (anchor_row, start_col + i, perm ! i)) [0..<word_len])))
       else
         (if anchor_row < anchor_pos_in_word
             \<or> anchor_row - anchor_pos_in_word + word_len > BOARD_SIZE then []
          else
            (let start_row = anchor_row - anchor_pos_in_word
             in try_placement D b rack anchor_row anchor_col False
                  (map (\<lambda>i. (start_row + i, anchor_col, perm ! i)) [0..<word_len]))))
       [0..<word_len])"

definition build_words_at_anchor ::
  "string set \<Rightarrow> board \<Rightarrow> string list \<Rightarrow> nat \<Rightarrow> nat \<Rightarrow> bool \<Rightarrow> Move list" where
  "build_words_at_anchor D b rack anchor_row anchor_col horizontal =
     concat (map (\<lambda>word_len.
       concat (map (\<lambda>perm.
         if \<not> is_valid_word D (concat perm) then []
         else anchor_placements D b rack anchor_row anchor_col horizontal perm word_len)
         (permutations rack word_len)))
       [2..<length rack + 1])"

definition generate_connected_moves :: "string set \<Rightarrow> board \<Rightarrow> string list \<Rightarrow> Move list" where
  "generate_connected_moves D b rack =
     concat (map (\<lambda>(anchor_row, anchor_col).
       build_words_at_anchor D b rack anchor_row anchor_col True
       @ build_words_at_anchor D b rack anchor_row anchor_col False)
       (find_anchors b))"

definition board_empty :: "board \<Rightarrow> bool" where
  "board_empty b \<longleftrightarrow>
     list_all (\<lambda>r. list_all (\<lambda>c. cell b r c = []) [0..<BOARD_SIZE]) [0..<BOARD_SIZE]"

definition get_legal_moves :: "string set \<Rightarrow> ScrabbleState \<Rightarrow> int \<Rightarrow> Move list" where
  "get_legal_moves D self player_id =
     (if is_terminal self then []
      else
        (let rack = the (racks self player_id);
             moves = (if board_empty (board self) then generate_first_move D (board self) rack
                      else generate_connected_moves D (board self) rack)
         in moves @ [Pass]))"

subsection \<open>Applying a move\<close>

text \<open>
  \<^verbatim>\<open>_draw_tiles\<close>. The random source is a parameter: \<open>rnd k\<close> is the number behind the
  \<open>k\<close>-th call of \<^verbatim>\<open>random.choice\<close>, which picks the element at that number modulo the
  length of the pool. \<^verbatim>\<open>list.remove\<close> deletes the first occurrence of the letter picked.
  Returns the drawn tiles and the pool left.
\<close>

fun draw_loop ::
  "(nat \<Rightarrow> nat) \<Rightarrow> nat \<Rightarrow> nat \<Rightarrow> string list \<Rightarrow> string list \<Rightarrow> string list \<times> string list" where
  "draw_loop rnd k 0 pool drawn = (drawn, pool)"
| "draw_loop rnd k (Suc n) pool drawn =
     (let tile = pool ! (rnd k mod length pool)
      in draw_loop rnd (Suc k) n (remove1 tile pool) (drawn @ [tile]))"

definition draw_tiles :: "(nat \<Rightarrow> nat) \<Rightarrow> string list \<Rightarrow> nat \<Rightarrow> string list \<times> string list" where
  "draw_tiles rnd pool cnt =
     (let actual_draw_count = min cnt (length pool)
      in draw_loop rnd 0 actual_draw_count pool [])"

text \<open>
  The loop \<^verbatim>\<open>for tile in tiles_to_remove: if tile in rack_copy: rack_copy.remove(tile)\<close>
\<close>

definition remove_tiles :: "string list \<Rightarrow> string list \<Rightarrow> string list" where
  "remove_tiles rack tiles_to_remove =
     foldl (\<lambda>rack_copy tile. if tile \<in> set rack_copy then remove1 tile rack_copy else rack_copy)
       rack tiles_to_remove"

text \<open>
  \<^verbatim>\<open>apply_move\<close>, on values: the result is the state \<^verbatim>\<open>next_state\<close> that the method
  returns. (The version on a store, with the copies the method makes, is \<open>apply_move_h\<close>
  below.)
\<close>

definition apply_move :: "(nat \<Rightarrow> nat) \<Rightarrow> ScrabbleState \<Rightarrow> Move \<Rightarrow> ScrabbleState" where
  "apply_move rnd self move =
     (let opponent_id = 3 - current_player self;
          next_state = \<lparr>board = board self, tile_pool = tile_pool self, racks = racks self,
                        current_player = opponent_id, scores = scores self,
                        passes_in_a_row = 0\<rparr>;
          player_performing_move = current_player self
      in if \<not> is_pass move then
           (let new_board = place_tiles (board next_state) (tiles_placed move);
                new_scores = (scores next_state)(player_performing_move \<mapsto>
                   the (scores next_state player_performing_move) + score move);
                tiles_to_remove = map (snd \<circ> snd) (tiles_placed move);
                rack_copy = remove_tiles (the (racks next_state player_performing_move))
                   tiles_to_remove;
                tiles_used = length (tiles_placed move);
                (new_tiles, new_pool) = draw_tiles rnd (tile_pool next_state) tiles_used
            in next_state\<lparr>board := new_board, scores := new_scores, tile_pool := new_pool,
                 racks := (racks next_state)(player_performing_move \<mapsto> rack_copy @ new_tiles),
                 passes_in_a_row := 0\<rparr>)
         else next_state\<lparr>passes_in_a_row := passes_in_a_row self + 1\<rparr>)"

text \<open>
  \<^verbatim>\<open>create_new_game\<close>. \<^verbatim>\<open>random.shuffle\<close> is the parameter \<open>shuffle\<close>. The racks are
  dealt by \<^verbatim>\<open>tile_pool.pop()\<close>, from the end of the pool, while the pool is not empty.
\<close>

definition tile_distribution :: "(string \<times> nat) list" where
  "tile_distribution =
    [(''A'', 9), (''B'', 2), (''C'', 2), (''D'', 4), (''E'', 12), (''F'', 2), (''G'', 3),
     (''H'', 2), (''I'', 9), (''J'', 1), (''K'', 1), (''L'', 4), (''M'', 2), (''N'', 6),
     (''O'', 8), (''P'', 2), (''Q'', 1), (''R'', 6), (''S'', 4), (''T'', 6), (''U'', 4),
     (''V'', 2), (''W'', 2), (''X'', 1), (''Y'', 2), (''Z'', 1), (''_'', 2)]"

fun deal :: "nat \<Rightarrow> string list \<Rightarrow> string list \<Rightarrow> string list \<times> string list" where
  "deal 0 pool rack = (rack, pool)"
| "deal (Suc n) pool rack =
     (if pool \<noteq> [] then deal n (butlast pool) (rack @ [last pool])
      else deal n pool rack)"

definition create_new_game :: "(string list \<Rightarrow> string list) \<Rightarrow> ScrabbleState" where
  "create_new_game shuffle =
     (let new_board = replicate BOARD_SIZE (replicate BOARD_SIZE []);
          pool = shuffle (concat (map (\<lambda>(letter, cnt). replicate cnt letter)
                        tile_distribution));
          (rack1, pool) = deal RACK_SIZE pool [];
          (rack2, pool) = deal RACK_SIZE pool []
      in \<lparr>board = new_board, tile_pool = pool,
           racks = [1 \<mapsto> rack1, 2 \<mapsto> rack2], current_player = 1,
           scores = [1 \<mapsto> 0, 2 \<mapsto> 0], passes_in_a_row = 0\<rparr>)"

subsection \<open>Example positions\<close>

definition empty_board :: board where
  "empty_board = replicate BOARD_SIZE (replicate BOARD_SIZE [])"

text \<open>A first turn with a rack that holds the same letter twice.\<close>

definition double_letter_state :: ScrabbleState where
  "double_letter_state =
     \<lparr>board = empty_board, tile_pool = [''E''], racks = [1 \<mapsto> [''A'', ''A''], 2 \<mapsto> [''B'']],
      current_player = 1, scores = [1 \<mapsto> 0, 2 \<mapsto> 0], passes_in_a_row = 0\<rparr>"

text \<open>The word AT stands in column 7, rows 6 and 7; the rack can extend it to ATS.\<close>

definition single_tile_state :: ScrabbleState where
  "single_tile_state =
     \<lparr>board = place_tiles empty_board [(6, 7, ''A''), (7, 7, ''T'')], tile_pool = [''E''],
      racks = [1 \<mapsto> [''A'', ''T'', ''S''], 2 \<mapsto> [''B'']],
      current_player = 1, scores = [1 \<mapsto> 0, 2 \<mapsto> 0], passes_in_a_row = 0\<rparr>"

text \<open>A rack that does not hold the letter Z.\<close>

definition unchecked_state :: ScrabbleState where
  "unchecked_state =
     \<lparr>board = empty_board, tile_pool = [''E''], racks = [1 \<mapsto> [''A''], 2 \<mapsto> [''B'']],
      current_player = 1, scores = [1 \<mapsto> 0, 2 \<mapsto> 0], passes_in_a_row = 0\<rparr>"

text \<open>The rack C, A, T, S, X, X, X and the word CATS laid along row 7 from a column.\<close>

definition cats_rack :: "string list" where
  "cats_rack = [''C'', ''A'', ''T'', ''S'', ''X'', ''X'', ''X'']"

definition cats_at :: "nat \<Rightarrow> tile list" where
  "cats_at start_col =
     [(7, start_col, ''C''), (7, start_col + 1, ''A''), (7, start_col + 2, ''T''),
      (7, start_col + 3, ''S'')]"

subsection \<open>Notions used in the statements and proofs\<close>

text \<open>
  The cells of the candidate word of \<^verbatim>\<open>_build_words_at_anchor\<close>, with the letters of
  the permutation, for the anchor at position \<open>pos\<close> of the word.
\<close>

definition anchor_span :: "nat \<Rightarrow> nat \<Rightarrow> bool \<Rightarrow> string list \<Rightarrow> nat \<Rightarrow> nat \<Rightarrow> tile list" where
  "anchor_span anchor_row anchor_col horizontal perm word_len pos =
     (if horizontal
      then map (\<lambda>i. (anchor_row, anchor_col - pos + i, perm ! i)) [0..<word_len]
      else map (\<lambda>i. (anchor_row - pos + i, anchor_col, perm ! i)) [0..<word_len])"

text \<open>
  What the generator guarantees of the tiles of every Place move: there is a tile, the
  tiles lie on distinct empty cells of the board, and their letters are jointly
  available in the rack.
\<close>

definition placeable :: "board \<Rightarrow> string list \<Rightarrow> tile list \<Rightarrow> bool" where
  "placeable b rack tiles \<longleftrightarrow>
     tiles \<noteq> [] \<and> distinct (map (\<lambda>(r, c, l). (r, c)) tiles)
     \<and> (\<forall>(r, c, l)\<in>set tiles. r < BOARD_SIZE \<and> c < BOARD_SIZE \<and> cell b r c = [])
     \<and> mset (map (snd \<circ> snd) tiles) \<subseteq># mset rack"

text \<open>The number of non-empty cells of the board, and the number of tiles in the game.\<close>

definition count_tiles :: "board \<Rightarrow> nat" where
  "count_tiles b = sum_list (map (\<lambda>row. length (filter (\<lambda>c. c \<noteq> []) row)) b)"

definition tile_total :: "ScrabbleState \<Rightarrow> nat" where
  "tile_total s =
     length (the (racks s 1)) + length (the (racks s 2)) + length (tile_pool s)
     + count_tiles (board s)"

text \<open>
  The states of a game: \<^verbatim>\<open>create_new_game\<close> with any shuffle that permutes the bag,
  then moves that \<^verbatim>\<open>get_legal_moves\<close> returns for the player to move, applied with any
  random draws.
\<close>

inductive reachable :: "string set \<Rightarrow> ScrabbleState \<Rightarrow> bool" for D :: "string set" where
  start: "\<forall>xs. mset (shuffle xs) = mset xs \<Longrightarrow> reachable D (create_new_game shuffle)"
| move: "reachable D s \<Longrightarrow> m \<in> set (get_legal_moves D s (current_player s)) \<Longrightarrow>
         reachable D (apply_move rnd s m)"

text \<open>The opening AA on the centre row, for a first rack of seven tiles A.\<close>

definition opening_move :: Move where
  "opening_move = Place [(7, 6, ''A''), (7, 7, ''A'')] 4"

text \<open>
  A line of the board through a cell, read by column when \<open>horizontal\<close> holds and by
  row otherwise, and the index of the cell on that line.
\<close>

definition line_of :: "board \<Rightarrow> bool \<Rightarrow> nat \<Rightarrow> nat \<Rightarrow> nat \<Rightarrow> string" where
  "line_of b horizontal row col = (if horizontal then (\<lambda>c. cell b row c) else (\<lambda>r. cell b r col))"

definition pos_of :: "bool \<Rightarrow> nat \<Rightarrow> nat \<Rightarrow> nat" where
  "pos_of horizontal row col = (if horizontal then col else row)"

text \<open>
  A maximal contiguous run of tiles on a line: the cells from \<open>i\<close> to \<open>j\<close> are filled,
  and the run is bounded on either side by the edge of the board or an empty cell.
\<close>

definition maximal_run :: "(nat \<Rightarrow> string) \<Rightarrow> nat \<Rightarrow> nat \<Rightarrow> bool" where
  "maximal_run line i j \<longleftrightarrow>
     i \<le> j \<and> j < BOARD_SIZE \<and> list_all (\<lambda>k. line k \<noteq> []) [i..<j + 1]
     \<and> (i = 0 \<or> line (i - 1) = []) \<and> (j = BOARD_SIZE - 1 \<or> line (j + 1) = [])"

text \<open>The cells of a word laid along a line from a start index, with its letters.\<close>

definition span_cells :: "bool \<Rightarrow> nat \<Rightarrow> nat \<Rightarrow> string list \<Rightarrow> nat \<Rightarrow> tile list" where
  "span_cells horizontal fixed start perm len =
     map (\<lambda>k. if horizontal then (fixed, start + k, perm ! k) else (start + k, fixed, perm ! k))
       [0..<len]"

subsection \<open>Adversarial search: values and loops\<close>

text \<open>Values of the search: Python integers together with \<^verbatim>\<open>float("-inf")\<close> and
  \<^verbatim>\<open>float("inf")\<close>.\<close>

datatype eint = MInf | Fin int | PInf

instantiation eint :: linorder
begin

fun less_eq_eint :: "eint \<Rightarrow> eint \<Rightarrow> bool" where
  "less_eq_eint MInf y = True"
| "less_eq_eint (Fin x) MInf = False"
| "less_eq_eint (Fin x) (Fin y) = (x \<le> y)"
| "less_eq_eint (Fin x) PInf = True"
| "less_eq_eint PInf PInf = True"
| "less_eq_eint PInf y = False"

definition less_eint :: "eint \<Rightarrow> eint \<Rightarrow> bool" where
  "less_eint x y \<longleftrightarrow> x \<le> y \<and> \<not> y \<le> x"

instance
proof
  fix x y z :: eint
  show "(x < y) = (x \<le> y \<and> \<not> y \<le> x)" by (simp add: less_eint_def)
  show "x \<le> x" by (cases x) auto
  show "x \<le> y \<Longrightarrow> y \<le> z \<Longrightarrow> x \<le> z" by (cases x; cases y; cases z) auto
  show "x \<le> y \<Longrightarrow> y \<le> x \<Longrightarrow> x = y" by (cases x; cases y) auto
  show "x \<le> y \<or> y \<le> x" by (cases x; cases y) auto
qed

end

text \<open>The loop of a Max node of \<^verbatim>\<open>_minimax_value\<close>, over the moves left, with the running
  \<^verbatim>\<open>value\<close> and \<^verbatim>\<open>alpha\<close>; \<open>child move alpha beta\<close> is the recursive call on the
  successor by \<open>move\<close>. The loop of a Min node is its mirror image.\<close>

fun max_loop :: "('m \<Rightarrow> 'v \<Rightarrow> 'v \<Rightarrow> 'v::linorder) \<Rightarrow> 'm list \<Rightarrow> 'v \<Rightarrow> 'v \<Rightarrow> 'v \<Rightarrow> 'v" where
  "max_loop child [] val alpha beta = val"
| "max_loop child (move # moves) val alpha beta =
     (let val = max val (child move alpha beta);
          alpha = max alpha val
      in if alpha \<ge> beta then val else max_loop child moves val alpha beta)"

fun min_loop :: "('m \<Rightarrow> 'v \<Rightarrow> 'v \<Rightarrow> 'v::linorder) \<Rightarrow> 'm list \<Rightarrow> 'v \<Rightarrow> 'v \<Rightarrow> 'v \<Rightarrow> 'v" where
  "min_loop child [] val alpha beta = val"
| "min_loop child (move # moves) val alpha beta =
     (let val = min val (child move alpha beta);
          beta = min beta val
      in if alpha \<ge> beta then val else min_loop child moves val alpha beta)"

text \<open>The loop at the root of the search, in \<^verbatim>\<open>find_best_move\<close>: \<^verbatim>\<open>beta\<close> stays at
  infinity, the best move changes on a strictly greater value only.\<close>

fun root_loop ::
  "('m \<Rightarrow> 'v \<Rightarrow> 'v \<Rightarrow> 'v::linorder) \<Rightarrow> 'm list \<Rightarrow> 'v \<Rightarrow> 'm option \<Rightarrow> 'v \<Rightarrow> 'v \<Rightarrow> 'v \<times> 'm option"
  where
  "root_loop child [] best_value best_move alpha beta = (best_value, best_move)"
| "root_loop child (move # moves) best_value best_move alpha beta =
     (let val = child move alpha beta;
          (best_value, best_move) =
             (if val > best_value then (val, Some move) else (best_value, best_move));
          alpha = max alpha best_value
      in root_loop child moves best_value best_move alpha beta)"

text \<open>A measure of the game left: it decreases with every legal move.\<close>

definition game_measure :: "ScrabbleState \<Rightarrow> nat" where
  "game_measure s = 3 * length (tile_pool s) + nat (2 - passes_in_a_row s)"

text \<open>
  The guarantee of a search with the window from \<open>alpha\<close> to \<open>beta\<close>: the result
  \<open>ab\<close> is the exact value \<open>v\<close> inside the window, an upper bound of it at or below
  \<open>alpha\<close>, a lower bound of it at or above \<open>beta\<close>.
\<close>

definition approximates :: "'v::linorder \<Rightarrow> 'v \<Rightarrow> 'v \<Rightarrow> 'v \<Rightarrow> bool" where
  "approximates alpha beta v ab \<longleftrightarrow>
     (ab \<le> alpha \<longrightarrow> v \<le> ab) \<and> (alpha < ab \<and> ab < beta \<longrightarrow> ab = v) \<and> (beta \<le> ab \<longrightarrow> ab \<le> v)"

text \<open>What the loops of a Max and of a Min node establish, for the exact values \<open>t\<close> of the
  successors.\<close>

definition max_post :: "('m \<Rightarrow> 'v::linorder) \<Rightarrow> 'm list \<Rightarrow> 'v \<Rightarrow> 'v \<Rightarrow> 'v \<Rightarrow> 'v \<Rightarrow> bool" where
  "max_post t moves val alpha beta r \<longleftrightarrow>
     val \<le> r
     \<and> (r \<le> alpha \<longrightarrow> (\<forall>m\<in>set moves. t m \<le> r))
     \<and> (alpha < r \<and> r < beta \<longrightarrow> (\<forall>m\<in>set moves. t m \<le> r) \<and> (\<exists>m\<in>set moves. t m = r))
     \<and> (beta \<le> r \<longrightarrow> (\<exists>m\<in>set moves. r \<le> t m))"

definition min_post :: "('m \<Rightarrow> 'v::linorder) \<Rightarrow> 'm list \<Rightarrow> 'v \<Rightarrow> 'v \<Rightarrow> 'v \<Rightarrow> 'v \<Rightarrow> bool" where
  "min_post t moves val alpha beta r \<longleftrightarrow>
     r \<le> val
     \<and> (beta \<le> r \<longrightarrow> (\<forall>m\<in>set moves. r \<le> t m))
     \<and> (alpha < r \<and> r < beta \<longrightarrow> (\<forall>m\<in>set moves. r \<le> t m) \<and> (\<exists>m\<in>set moves. t m = r))
     \<and> (r \<le> alpha \<longrightarrow> (\<exists>m\<in>set moves. t m \<le> r))"

text \<open>The root loop on the exact values: the unpruned search with the same rule for the
  best move.\<close>

definition keep_first ::
  "('m \<Rightarrow> 'v::linorder) \<Rightarrow> 'v \<times> 'm option \<Rightarrow> 'm \<Rightarrow> 'v \<times> 'm option" where
  "keep_first t best m = (if t m > fst best then (t m, Some m) else best)"

text \<open>A position in which both players can extend the word AT.\<close>

definition search_state :: ScrabbleState where
  "search_state =
     \<lparr>board = place_tiles empty_board [(6, 7, ''A''), (7, 7, ''T'')],
      tile_pool = [''E'', ''E'', ''E'', ''E'', ''E'', ''E''],
      racks = [1 \<mapsto> [''A'', ''T'', ''S''], 2 \<mapsto> [''A'', ''T'']],
      current_player = 1, scores = [1 \<mapsto> 0, 2 \<mapsto> 0], passes_in_a_row = 0\<rparr>"

subsection \<open>The Monte Carlo evaluator\<close>

text \<open>
  \<^verbatim>\<open>MonteCarlo.find_best_move\<close>. The coroutine awaits each heuristic call before the
  next statement, so it is modelled as a sequential function. What it does to its
  collaborators is recorded in a trace: each call of \<^verbatim>\<open>state.apply_move(move)\<close> with
  the state returned, and each call of the heuristic with its arguments. The heuristic
  may be stochastic: it takes the number of the call as well. \<open>rnds i j\<close> is the random
  source of the \<open>j\<close>-th playout of the \<open>i\<close>-th move.

  The values of the heuristic are Python numbers, floating-point numbers in general.
  Their arithmetic is the parameter \<open>num\<close>: the initial \<^verbatim>\<open>0\<close>, the sum of
  \<^verbatim>\<open>total_value += value\<close>, the division of \<^verbatim>\<open>total_value / playouts_per_move\<close> and the
  comparison made by \<^verbatim>\<open>max\<close>. Nothing is assumed of it, so its rounding is whatever
  Python's is.
\<close>

datatype mc_event = Applied Move ScrabbleState | Evaluated ScrabbleState int

record 'v numeric =
  num_zero :: 'v
  num_add :: "'v \<Rightarrow> 'v \<Rightarrow> 'v"
  num_div :: "'v \<Rightarrow> int \<Rightarrow> 'v"
  num_gt :: "'v \<Rightarrow> 'v \<Rightarrow> bool"

text \<open>Exact arithmetic on the real numbers, for the examples.\<close>

definition real_numeric :: "real numeric" where
  "real_numeric = \<lparr>num_zero = 0, num_add = (+), num_div = (\<lambda>x n. x / real_of_int n),
                    num_gt = (\<lambda>x y. x > y)\<rparr>"

text \<open>The inner loop \<^verbatim>\<open>for _ in range(playouts_per_move)\<close>, for one move.\<close>

definition playout_step ::
  "'v numeric \<Rightarrow> (nat \<Rightarrow> ScrabbleState \<Rightarrow> int \<Rightarrow> 'v) \<Rightarrow> (nat \<Rightarrow> nat \<Rightarrow> nat) \<Rightarrow> nat \<Rightarrow> ScrabbleState
   \<Rightarrow> Move \<Rightarrow> 'v \<times> mc_event list \<Rightarrow> nat \<Rightarrow> 'v \<times> mc_event list" where
  "playout_step num heuristic_fn rnds calls state move acc j =
     (case acc of (total_value, trace) \<Rightarrow>
        (let next_state = apply_move (rnds j) state move;
             val = heuristic_fn (calls + j) next_state (current_player state)
         in (num_add num total_value val,
             trace @ [Applied move next_state, Evaluated next_state (current_player state)])))"

definition run_playouts ::
  "'v numeric \<Rightarrow> (nat \<Rightarrow> ScrabbleState \<Rightarrow> int \<Rightarrow> 'v) \<Rightarrow> (nat \<Rightarrow> nat \<Rightarrow> nat) \<Rightarrow> nat \<Rightarrow> ScrabbleState
   \<Rightarrow> Move \<Rightarrow> int \<Rightarrow> 'v \<times> mc_event list" where
  "run_playouts num heuristic_fn rnds calls state move per_move =
     foldl (playout_step num heuristic_fn rnds calls state move) (num_zero num, [])
       [0..<nat per_move]"

text \<open>
  \<^verbatim>\<open>move_values[move] = avg_value\<close> and \<^verbatim>\<open>max(move_values, key=move_values.get)\<close>, on
  the dictionary as the list of its items in insertion order. Two keys of the dictionary
  coincide when their hashes are equal and \<^verbatim>\<open>__eq__\<close> holds, that is (up to collisions
  of the hash) when the tiles, the pass flag and the score are equal. \<^verbatim>\<open>max\<close> keeps
  the first key and replaces it by a later one whose value compares greater.
\<close>

fun dict_set :: "(Move \<times> 'v) list \<Rightarrow> Move \<Rightarrow> 'v \<Rightarrow> (Move \<times> 'v) list" where
  "dict_set [] k v = [(k, v)]"
| "dict_set ((k', v') # rest) k v =
     (if k' = k then (k', v) # rest else (k', v') # dict_set rest k v)"

fun dict_max :: "'v numeric \<Rightarrow> Move \<times> 'v \<Rightarrow> (Move \<times> 'v) list \<Rightarrow> Move" where
  "dict_max num best [] = fst best"
| "dict_max num best (kv # rest) =
     dict_max num (if num_gt num (snd kv) (snd best) then kv else best) rest"

text \<open>The body of the loop \<^verbatim>\<open>for move in moves\<close>, for the \<open>i\<close>-th move.\<close>

definition mc_step ::
  "'v numeric \<Rightarrow> (nat \<Rightarrow> ScrabbleState \<Rightarrow> int \<Rightarrow> 'v) \<Rightarrow> (nat \<Rightarrow> nat \<Rightarrow> nat \<Rightarrow> nat) \<Rightarrow> ScrabbleState
   \<Rightarrow> int \<Rightarrow> (Move \<times> 'v) list \<times> mc_event list \<Rightarrow> nat \<times> Move
   \<Rightarrow> (Move \<times> 'v) list \<times> mc_event list"
  where
  "mc_step num heuristic_fn rnds state per_move acc im =
     (case (acc, im) of ((move_values, trace), (i, move)) \<Rightarrow>
        (let (total_value, events) =
               run_playouts num heuristic_fn (rnds i) (i * nat per_move) state move per_move;
             avg_value = num_div num total_value per_move
         in (dict_set move_values move avg_value, trace @ events)))"

text \<open>\<^verbatim>\<open>int(self.num_playouts // len(moves)) or 1\<close>\<close>

definition playouts_per_move :: "int \<Rightarrow> nat \<Rightarrow> int" where
  "playouts_per_move num_playouts n_moves =
     (let q = num_playouts div int n_moves in if q = 0 then 1 else q)"

text \<open>The move returned, and the trace of the calls.\<close>

definition mc_find_best_move ::
  "'v numeric \<Rightarrow> (nat \<Rightarrow> ScrabbleState \<Rightarrow> int \<Rightarrow> 'v) \<Rightarrow> (nat \<Rightarrow> nat \<Rightarrow> nat \<Rightarrow> nat) \<Rightarrow> int
   \<Rightarrow> string set \<Rightarrow> ScrabbleState \<Rightarrow> Move \<times> mc_event list" where
  "mc_find_best_move num heuristic_fn rnds num_playouts D state =
     (let moves = get_legal_moves D state (current_player state) in
      if moves = [] then (Pass, [])
      else
        (let per_move = playouts_per_move num_playouts (length moves);
             (move_values, trace) =
                foldl (mc_step num heuristic_fn rnds state per_move) ([], []) (enumerate 0 moves)
         in case move_values of
              [] \<Rightarrow> (Pass, trace)
            | kv # rest \<Rightarrow> (dict_max num kv rest, trace)))"

text \<open>The calls of \<open>n\<close> playouts of one move: every playout applies the move, then
  evaluates the successor it got.\<close>

definition playout_events :: "(nat \<Rightarrow> nat \<Rightarrow> nat) \<Rightarrow> ScrabbleState \<Rightarrow> Move \<Rightarrow> nat \<Rightarrow> mc_event list" where
  "playout_events rnds state move n =
     concat (map (\<lambda>j. [Applied move (apply_move (rnds j) state move),
                       Evaluated (apply_move (rnds j) state move) (current_player state)])
               [0..<n])"

text \<open>A first turn with three different tiles in the pool.\<close>

definition playout_state :: ScrabbleState where
  "playout_state =
     \<lparr>board = empty_board, tile_pool = [''E'', ''F'', ''G''],
      racks = [1 \<mapsto> [''A'', ''A''], 2 \<mapsto> [''B'']],
      current_player = 1, scores = [1 \<mapsto> 0, 2 \<mapsto> 0], passes_in_a_row = 0\<rparr>"

definition playout_move :: Move where
  "playout_move = Place [(7, 6, ''A''), (7, 7, ''A'')] 4"

section \<open>Move equality and hashing\<close>

lemma list_all_zip_take:
  "list_all (\<lambda>(tile1, tile2). tile1 = tile2) (zip xs ys)
     \<longleftrightarrow> take (min (length xs) (length ys)) xs = take (min (length xs) (length ys)) ys"
  by (induction xs ys rule: list_induct2') auto

lemma prefix_take_min:
  "prefix xs ys \<Longrightarrow> take (min (length xs) (length ys)) xs = take (min (length xs) (length ys)) ys"
  by (auto simp: prefix_def)

text \<open>
  Claim C10. \<^verbatim>\<open>Move.__eq__\<close> compares the tiles pairwise up to the length of the shorter
  list only, and it uses the score and the pass flag: two moves compare equal exactly
  when their tile lists agree on that common length and their scores and pass flags are
  equal. So two non-pass moves of equal score, one of whose tile lists is a prefix of
  the other's (the empty list included), compare equal. The hash uses the full tile
  list and the pass flag and not the score: the hashed keys are equal exactly when the
  tile lists and the pass flags are, so two moves whose tile lists differ can have
  different hash values even when they compare equal, and changing the score never
  changes the hash.
\<close>

theorem move_eq_prefix:
  "(move_eq a b \<longleftrightarrow>
      take (min (length (tiles_placed a)) (length (tiles_placed b))) (tiles_placed a)
        = take (min (length (tiles_placed a)) (length (tiles_placed b))) (tiles_placed b)
      \<and> score a = score b \<and> is_pass a = is_pass b)
   \<and> ((prefix (tiles_placed a) (tiles_placed b) \<or> prefix (tiles_placed b) (tiles_placed a))
        \<and> score a = score b \<and> \<not> is_pass a \<and> \<not> is_pass b \<longrightarrow> move_eq a b)
   \<and> (hash_key a = hash_key b \<longleftrightarrow> tiles_placed a = tiles_placed b \<and> is_pass a = is_pass b)
   \<and> (tiles_placed a \<noteq> tiles_placed b \<longrightarrow> (\<exists>h. move_hash h a \<noteq> move_hash h b))
   \<and> move_hash h' (a\<lparr>score := sc\<rparr>) = move_hash h' a"
proof -
  have eq: "move_eq a b \<longleftrightarrow>
      take (min (length (tiles_placed a)) (length (tiles_placed b))) (tiles_placed a)
        = take (min (length (tiles_placed a)) (length (tiles_placed b))) (tiles_placed b)
      \<and> score a = score b \<and> is_pass a = is_pass b"
    by (simp add: move_eq_def list_all_zip_take)
  have pre: "move_eq a b"
    if "prefix (tiles_placed a) (tiles_placed b) \<or> prefix (tiles_placed b) (tiles_placed a)"
      "score a = score b" "\<not> is_pass a" "\<not> is_pass b"
    using that prefix_take_min[of "tiles_placed a" "tiles_placed b"]
      prefix_take_min[of "tiles_placed b" "tiles_placed a"]
    unfolding eq by (auto simp: min.commute)
  have key: "hash_key a = hash_key b \<longleftrightarrow> tiles_placed a = tiles_placed b \<and> is_pass a = is_pass b"
    by (simp add: hash_key_def)
  have ex: "\<exists>h. move_hash h a \<noteq> move_hash h b" if "tiles_placed a \<noteq> tiles_placed b"
  proof
    show "move_hash (\<lambda>k. if k = hash_key a then 0 else 1) a
            \<noteq> move_hash (\<lambda>k. if k = hash_key a then 0 else 1) b"
      using key that by (simp add: move_hash_def)
  qed
  have sc: "move_hash h' (a\<lparr>score := sc\<rparr>) = move_hash h' a"
    by (simp add: move_hash_def hash_key_def)
  show ?thesis using eq pre key ex sc by blast
qed

text \<open>
  A one-tile move and its two-tile extension of the same score compare equal and are
  hashed from different keys; the empty placement compares equal to any placement of
  the same score. A different first tile, a different score or a different pass flag
  makes two moves unequal; a different score alone leaves the hashed key the same.
\<close>

theorem move_eq_prefix_witness:
  "move_eq (Place [(7, 7, ''A'')] 5) (Place [(7, 7, ''A''), (7, 8, ''T'')] 5)
   \<and> move_eq (Place [] 5) (Place [(7, 7, ''A'')] 5)
   \<and> hash_key (Place [(7, 7, ''A'')] 5) \<noteq> hash_key (Place [(7, 7, ''A''), (7, 8, ''T'')] 5)
   \<and> (\<exists>h. move_hash h (Place [(7, 7, ''A'')] 5)
            \<noteq> move_hash h (Place [(7, 7, ''A''), (7, 8, ''T'')] 5))
   \<and> \<not> move_eq (Place [(7, 7, ''A'')] 5) (Place [(7, 7, ''B''), (7, 8, ''T'')] 5)
   \<and> \<not> move_eq (Place [(7, 7, ''A'')] 5) (Place [(7, 7, ''A'')] 6)
   \<and> \<not> move_eq (Place [] 0) Pass
   \<and> hash_key (Place [(7, 7, ''A'')] 5) = hash_key (Place [(7, 7, ''A'')] 6)"
  using move_eq_prefix[of "Place [(7, 7, ''A'')] 5" "Place [(7, 7, ''A''), (7, 8, ''T'')] 5"]
    move_eq_prefix[of "Place [] 5" "Place [(7, 7, ''A'')] 5"]
    move_eq_prefix[of "Place [(7, 7, ''A'')] 5" "Place [(7, 7, ''B''), (7, 8, ''T'')] 5"]
    move_eq_prefix[of "Place [(7, 7, ''A'')] 5" "Place [(7, 7, ''A'')] 6"]
    move_eq_prefix[of "Place [] 0" Pass]
  by (simp add: Place_def Pass_def)

section \<open>Properties of the scratch board\<close>

lemma nth_list_update_gen:
  "xs[i := x] ! j = (if i = j \<and> i < length xs then x else xs ! j)"
  by (cases "i < length xs") (auto simp: nth_list_update list_update_beyond)

lemma cell_put_tile:
  "cell (put_tile b (row, col, l)) r c =
     (if r = row \<and> c = col \<and> row < length b \<and> col < length (b ! row) then l else cell b r c)"
  by (simp add: cell_def put_tile_def nth_list_update_gen)

lemma length_put_tile [simp]: "length (put_tile b t) = length b"
  by (cases t) (simp add: put_tile_def)

lemma length_row_put_tile [simp]: "length (put_tile b t ! r) = length (b ! r)"
  by (cases t) (simp add: put_tile_def nth_list_update_gen)

lemma place_tiles_Nil [simp]: "place_tiles b [] = b"
  by (simp add: place_tiles_def)

lemma place_tiles_Cons [simp]: "place_tiles b (t # ts) = place_tiles (put_tile b t) ts"
  by (simp add: place_tiles_def)

lemma length_place_tiles [simp]: "length (place_tiles b ts) = length b"
  by (induction ts arbitrary: b) auto

lemma length_row_place_tiles [simp]: "length (place_tiles b ts ! r) = length (b ! r)"
  by (induction ts arbitrary: b) auto

lemma cell_place_tiles_other:
  "(r, c) \<notin> set (map (\<lambda>(r, c, l). (r, c)) ts) \<Longrightarrow> cell (place_tiles b ts) r c = cell b r c"
  by (induction ts arbitrary: b) (auto simp: cell_put_tile)

lemma cell_place_tiles_new:
  "distinct (map (\<lambda>(r, c, l). (r, c)) ts) \<Longrightarrow> (r, c, l) \<in> set ts \<Longrightarrow>
   r < length b \<Longrightarrow> c < length (b ! r) \<Longrightarrow> cell (place_tiles b ts) r c = l"
proof (induction ts arbitrary: b)
  case Nil
  then show ?case by simp
next
  case (Cons t ts)
  obtain r' c' l' where t: "t = (r', c', l')" by (cases t)
  show ?case
  proof (cases "(r, c, l) = t")
    case True
    then have "(r, c) \<notin> set (map (\<lambda>(r, c, l). (r, c)) ts)"
      using Cons.prems(1) by auto
    then show ?thesis
      using True Cons.prems by (simp add: cell_place_tiles_other cell_put_tile t [symmetric])
         (simp add: t cell_put_tile)
  next
    case False
    then have "(r, c, l) \<in> set ts" using Cons.prems(2) by simp
    then show ?thesis using Cons.IH[of "put_tile b t"] Cons.prems by simp
  qed
qed

section \<open>Applying a move: the fields of the successor\<close>

lemma board_apply_move:
  "board (apply_move rnd s m) =
     (if is_pass m then board s else place_tiles (board s) (tiles_placed m))"
  by (simp add: apply_move_def Let_def split: prod.split)

lemma scores_apply_move:
  "scores (apply_move rnd s m) =
     (if is_pass m then scores s
      else (scores s)(current_player s \<mapsto> the (scores s (current_player s)) + score m))"
  by (simp add: apply_move_def Let_def split: prod.split)

lemma current_player_apply_move:
  "current_player (apply_move rnd s m) = 3 - current_player s"
  by (simp add: apply_move_def Let_def split: prod.split)

lemma passes_apply_move:
  "passes_in_a_row (apply_move rnd s m) = (if is_pass m then passes_in_a_row s + 1 else 0)"
  by (simp add: apply_move_def Let_def split: prod.split)

lemma tile_pool_apply_move:
  "tile_pool (apply_move rnd s m) =
     (if is_pass m then tile_pool s
      else snd (draw_tiles rnd (tile_pool s) (length (tiles_placed m))))"
  by (simp add: apply_move_def Let_def split: prod.split)

lemma racks_apply_move:
  "racks (apply_move rnd s m) =
     (if is_pass m then racks s
      else (racks s)(current_player s \<mapsto>
             remove_tiles (the (racks s (current_player s))) (map (snd \<circ> snd) (tiles_placed m))
             @ fst (draw_tiles rnd (tile_pool s) (length (tiles_placed m)))))"
  by (simp add: apply_move_def Let_def split: prod.split)

section \<open>The list of legal moves\<close>

lemma wf_double_letter_state: "wf_state double_letter_state"
  by code_simp

text \<open>
  Claim C7, as amended. On a well-formed state, and for a player of the game,
  \<^verbatim>\<open>get_legal_moves\<close> returns the empty list when the state is terminal, and
  otherwise a non-empty list whose last element is the Pass move. The moves of the list
  need not be distinct.
\<close>

theorem get_legal_moves_shape:
  assumes "wf_state s" and "player_id = 1 \<or> player_id = 2"
  shows "(is_terminal s \<longrightarrow> get_legal_moves D s player_id = [])
       \<and> (\<not> is_terminal s \<longrightarrow>
            get_legal_moves D s player_id \<noteq> [] \<and> last (get_legal_moves D s player_id) = Pass)"
  by (simp add: get_legal_moves_def Let_def)

theorem get_legal_moves_shape_witness:
  "wf_state double_letter_state \<and> \<not> is_terminal double_letter_state
   \<and> get_legal_moves {''AA''} double_letter_state 1 \<noteq> []
   \<and> last (get_legal_moves {''AA''} double_letter_state 1) = Pass
   \<and> is_terminal (apply_move (\<lambda>k. 0) (apply_move (\<lambda>k. 0) double_letter_state Pass) Pass)
   \<and> get_legal_moves {''AA''}
        (apply_move (\<lambda>k. 0) (apply_move (\<lambda>k. 0) double_letter_state Pass) Pass) 1 = []"
proof -
  let ?t = "apply_move (\<lambda>k. 0) (apply_move (\<lambda>k. 0) double_letter_state Pass) Pass"
  have nt: "\<not> is_terminal double_letter_state"
    by (simp add: is_terminal_def double_letter_state_def)
  have wt: "wf_state ?t"
    by code_simp
  have tt: "is_terminal ?t"
    by code_simp
  show ?thesis
    using get_legal_moves_shape[OF wf_double_letter_state, of 1 "{''AA''}"]
      get_legal_moves_shape[OF wt, of 1 "{''AA''}"] nt tt wf_double_letter_state
    by simp
qed

text \<open>
  The claim as stated fails: a rack with two tiles A, on the empty board with AA in the
  lexicon, yields every placement of AA twice, once for each order of the two tiles.
\<close>

theorem get_legal_moves_not_distinct:
  "wf_state double_letter_state \<and> \<not> is_terminal double_letter_state
   \<and> \<not> distinct (get_legal_moves {''AA''} double_letter_state 1)"
  by code_simp

section \<open>Applying a move that the rack does not allow\<close>

lemma wf_unchecked_state: "wf_state unchecked_state"
  by code_simp

text \<open>
  Claim C8, as amended. \<^verbatim>\<open>apply_move\<close> does not validate a Place move: whatever the
  rack of the acting player holds, the score of the move is added to that player's score
  and every tile of the move is written on the board (for tiles on distinct cells of the
  board).
\<close>

theorem apply_move_unchecked:
  assumes "wf_state s" and "\<not> is_pass m"
    and "list_all (\<lambda>(r, c, l). r < BOARD_SIZE \<and> c < BOARD_SIZE) (tiles_placed m)"
    and "distinct (map (\<lambda>(r, c, l). (r, c)) (tiles_placed m))"
  shows "scores (apply_move rnd s m) (current_player s)
           = Some (the (scores s (current_player s)) + score m)
         \<and> list_all (\<lambda>(r, c, l). cell (board (apply_move rnd s m)) r c = l) (tiles_placed m)"
proof -
  have len: "length (board s) = BOARD_SIZE" "\<And>r. r < BOARD_SIZE \<Longrightarrow> length (board s ! r) = BOARD_SIZE"
    using assms(1) by (auto simp: wf_state_def wf_board_def list_all_length)
  have "cell (place_tiles (board s) (tiles_placed m)) r c = l"
    if "(r, c, l) \<in> set (tiles_placed m)" for r c l
  proof -
    have "r < BOARD_SIZE" "c < BOARD_SIZE"
      using that assms(3) by (auto simp: list_all_iff)
    then show ?thesis
      using cell_place_tiles_new[OF assms(4) that] len by simp
  qed
  then show ?thesis
    using assms(2) by (auto simp: scores_apply_move board_apply_move list_all_iff)
qed

theorem apply_move_unchecked_witness:
  "wf_state unchecked_state
   \<and> \<not> can_place (the (racks unchecked_state (current_player unchecked_state))) [''Z'']
   \<and> scores (apply_move (\<lambda>k. 0) unchecked_state (Place [(7, 7, ''Z'')] 1000))
        (current_player unchecked_state) = Some (0 + 1000)
   \<and> cell (board (apply_move (\<lambda>k. 0) unchecked_state (Place [(7, 7, ''Z'')] 1000))) 7 7 = ''Z''"
proof -
  have cp: "current_player unchecked_state = 1" "the (scores unchecked_state 1) = 0"
    by (simp_all add: unchecked_state_def)
  have nocan: "\<not> can_place (the (racks unchecked_state 1)) [''Z'']"
    by (simp add: unchecked_state_def)
  show ?thesis
    using nocan apply_move_unchecked[OF wf_unchecked_state, of "Place [(7, 7, ''Z'')] 1000" "\<lambda>k. 0"]
    by (simp add: Place_def BOARD_SIZE_def cp wf_unchecked_state)
qed

text \<open>
  The claim as stated fails: the rack holds no Z, and the move that places Z on the
  centre square for 1000 points is applied and scored.
\<close>

theorem apply_move_unchecked_cex:
  "\<not> can_place (the (racks unchecked_state 1)) [''Z'']
   \<and> cell (board unchecked_state) 7 7 = []
   \<and> scores unchecked_state 1 = Some 0
   \<and> cell (board (apply_move (\<lambda>k. 0) unchecked_state (Place [(7, 7, ''Z'')] 1000))) 7 7 = ''Z''
   \<and> scores (apply_move (\<lambda>k. 0) unchecked_state (Place [(7, 7, ''Z'')] 1000)) 1 = Some 1000"
  by code_simp

section \<open>Scoring a single tile\<close>

text \<open>
  Claim C6, evaluated on the code. The tile S is placed below AT, which stands in column
  7. The horizontal run through the new tile is the tile alone, and the vertical run is
  ATS, worth 3. A single tile always counts as a horizontal placement, and the main word
  is scored whatever its length, so the horizontal axis contributes the value of the
  tile: the score is 4, not 3. The generator emits this move with this score.
\<close>

theorem single_tile_scores_both_axes:
  "get_word_at (place_tiles (board single_tile_state) [(8, 7, ''S'')]) 8 7 True = ''S''
   \<and> get_word_at (place_tiles (board single_tile_state) [(8, 7, ''S'')]) 8 7 False = ''ATS''
   \<and> cross_score (place_tiles (board single_tile_state) [(8, 7, ''S'')]) True (8, 7, ''S'') = 3
   \<and> main_score (place_tiles (board single_tile_state) [(8, 7, ''S'')]) True [(8, 7, ''S'')] = 1
   \<and> calculate_score (board single_tile_state) [(8, 7, ''S'')] = 4
   \<and> Place [(8, 7, ''S'')] 4 \<in> set (get_legal_moves {''AT'', ''ATS''} single_tile_state 1)"
  by code_simp

section \<open>Permutations of the rack\<close>

lemma in_permutations_Suc:
  "i < length pool \<Longrightarrow> p \<in> set (permutations (take i pool @ drop (Suc i) pool) r) \<Longrightarrow>
   pool ! i # p \<in> set (permutations pool (Suc r))"
proof -
  assume i: "i < length pool" and p: "p \<in> set (permutations (take i pool @ drop (Suc i) pool) r)"
  have "pool ! i # p \<in> set (map ((#) (pool ! i)) (permutations (take i pool @ drop (Suc i) pool) r))"
    using p by simp
  moreover have "i \<in> set [0..<length pool]"
    using i by simp
  ultimately show ?thesis
    unfolding permutations.simps set_concat set_map image_image by (rule UN_I[rotated])
qed

lemma take_in_permutations:
  "r \<le> length xs \<Longrightarrow> take r xs \<in> set (permutations xs r)"
proof (induction r arbitrary: xs)
  case 0
  then show ?case by simp
next
  case (Suc r)
  then obtain x xs' where xs: "xs = x # xs'" by (cases xs) auto
  have "take r xs' \<in> set (permutations xs' r)" using Suc xs by simp
  then have "xs ! 0 # take r xs' \<in> set (permutations xs (Suc r))"
    using in_permutations_Suc[of 0 xs "take r xs'" r] by (simp add: xs del: permutations.simps)
  then show ?case by (simp add: xs del: permutations.simps)
qed

lemma permutations_length_mset:
  "p \<in> set (permutations xs r) \<Longrightarrow> length p = r \<and> mset p \<subseteq># mset xs"
proof (induction r arbitrary: xs p)
  case 0
  then show ?case by simp
next
  case (Suc r)
  from Suc.prems obtain i q where i: "i < length xs"
    and q: "q \<in> set (permutations (take i xs @ drop (Suc i) xs) r)" and p: "p = xs ! i # q"
    by (auto simp del: upt_Suc)
  have "length q = r" "mset q \<subseteq># mset (take i xs @ drop (Suc i) xs)"
    using Suc.IH[OF q] by simp_all
  moreover have "mset xs = add_mset (xs ! i) (mset (take i xs @ drop (Suc i) xs))"
    using i by (metis append_take_drop_id Cons_nth_drop_Suc mset.simps(2) mset_append union_mset_add_mset_right)
  ultimately show ?case
    by (simp add: p)
qed

section \<open>The first move\<close>

lemma in_concat_map_if:
  "m \<in> set (concat (map (\<lambda>x. if P x then [f x] else []) xs)) \<longleftrightarrow> (\<exists>x\<in>set xs. P x \<and> m = f x)"
  by (induction xs) auto

lemma in_first_move_starts:
  "m \<in> set (concat (map (\<lambda>start. if start \<le> 7 \<and> 7 < start + len then [f start] else [])
                  [8 - len..<min 8 (16 - len)]))
   \<longleftrightarrow> (\<exists>start. start + len \<le> 15 \<and> start \<le> 7 \<and> 7 < start + len \<and> m = f start)"
proof -
  have "(start \<in> set [8 - len..<min 8 (16 - len)] \<and> (start \<le> 7 \<and> 7 < start + len) \<and> m = f start)
    \<longleftrightarrow> (start + len \<le> 15 \<and> start \<le> 7 \<and> 7 < start + len \<and> m = f start)" for start
    by (simp only: set_upt) auto
  then show ?thesis
    unfolding in_concat_map_if Bex_def by (simp only:)
qed

lemma in_first_move_placements:
  "m \<in> set (first_move_placements b perm len) \<longleftrightarrow>
     (\<exists>start. start + len \<le> 15 \<and> start \<le> 7 \<and> 7 < start + len
        \<and> m = Place (map (\<lambda>i. (7, start + i, perm ! i)) [0..<len])
                   (calculate_score b (map (\<lambda>i. (7, start + i, perm ! i)) [0..<len])))
     \<or> (\<exists>start. start + len \<le> 15 \<and> start \<le> 7 \<and> 7 < start + len
        \<and> m = Place (map (\<lambda>i. (start + i, 7, perm ! i)) [0..<len])
                   (calculate_score b (map (\<lambda>i. (start + i, 7, perm ! i)) [0..<len])))"
proof -
  let ?h = "\<lambda>start. Place (map (\<lambda>i. (7, start + i, perm ! i)) [0..<len])
                   (calculate_score b (map (\<lambda>i. (7, start + i, perm ! i)) [0..<len]))"
  let ?v = "\<lambda>start. Place (map (\<lambda>i. (start + i, 7, perm ! i)) [0..<len])
                   (calculate_score b (map (\<lambda>i. (start + i, 7, perm ! i)) [0..<len]))"
  have eq: "first_move_placements b perm len =
      concat (map (\<lambda>start. if start \<le> 7 \<and> 7 < start + len then [?h start] else [])
                  [8 - len..<min 8 (16 - len)])
      @ concat (map (\<lambda>start. if start \<le> 7 \<and> 7 < start + len then [?v start] else [])
                  [8 - len..<min 8 (16 - len)])"
    by (simp del: upt_Suc add: first_move_placements_def Let_def BOARD_SIZE_def cong: if_cong)
  show ?thesis
    unfolding eq set_append Un_iff by (simp only: in_first_move_starts)
qed

lemma in_generate_first_move:
  "m \<in> set (generate_first_move D b rack) \<longleftrightarrow>
     (\<exists>len perm. 2 \<le> len \<and> len \<le> length rack \<and> perm \<in> set (permutations rack len)
        \<and> is_valid_word D (concat perm) \<and> m \<in> set (first_move_placements b perm len))"
proof -
  have "m \<in> set (generate_first_move D b rack) \<longleftrightarrow>
     (\<exists>len\<in>set [2..<length rack + 1]. \<exists>perm\<in>set (permutations rack len).
        is_valid_word D (concat perm) \<and> m \<in> set (first_move_placements b perm len))"
    unfolding generate_first_move_def set_concat set_map
    by (auto simp del: upt_Suc set_upt split: if_splits)
  also have "\<dots> \<longleftrightarrow>
     (\<exists>len perm. 2 \<le> len \<and> len \<le> length rack \<and> perm \<in> set (permutations rack len)
        \<and> is_valid_word D (concat perm) \<and> m \<in> set (first_move_placements b perm len))"
    by (simp only: set_upt) auto
  finally show ?thesis .
qed


lemma generated_first_move_score:
  "m \<in> set (generate_first_move D b rack) \<Longrightarrow>
   score m = calculate_score b (tiles_placed m) \<and> \<not> is_pass m"
  by (auto simp: in_generate_first_move in_first_move_placements Place_def)

lemma cats_at_map:
  "map (\<lambda>i. (7, start + i, [''C'', ''A'', ''T'', ''S''] ! i)) [0..<4] = cats_at start"
  by (simp add: cats_at_def upt_rec numeral_nat)

lemma cats_score_each:
  "calculate_score empty_board (cats_at 4) = 12"
  "calculate_score empty_board (cats_at 5) = 12"
  "calculate_score empty_board (cats_at 6) = 12"
  "calculate_score empty_board (cats_at 7) = 12"
  by code_simp+

lemma cats_score:
  assumes "start \<le> 7" and "7 < start + 4"
  shows "calculate_score empty_board (cats_at start) = 12"
proof -
  have "start = 4 \<or> start = 5 \<or> start = 6 \<or> start = 7" using assms by arith
  then show ?thesis using cats_score_each by auto
qed

lemma cats_emitted:
  assumes "is_valid_word D ''CATS''" and "start \<le> 7" and "7 < start + 4"
  shows "Place (cats_at start) 12 \<in> set (generate_first_move D empty_board cats_rack)"
proof -
  have perm: "[''C'', ''A'', ''T'', ''S''] \<in> set (permutations cats_rack 4)"
    using take_in_permutations[of 4 cats_rack] by (simp add: cats_rack_def)
  have "Place (cats_at start) 12 \<in> set (first_move_placements empty_board [''C'', ''A'', ''T'', ''S''] 4)"
    unfolding in_first_move_placements cats_at_map
    using assms(2,3) cats_score[OF assms(2,3)]
    by (intro disjI1 exI[of _ start]) simp
  with perm assms(1) show ?thesis
    unfolding in_generate_first_move
    by (intro exI[of _ 4] exI[of _ "[''C'', ''A'', ''T'', ''S'']"]) (simp add: cats_rack_def)
qed

lemma cats_moves_score:
  assumes "m \<in> set (generate_first_move D empty_board cats_rack)"
    and "tiles_placed m = cats_at start" and "start \<le> 7" and "7 < start + 4"
  shows "score m = 12"
  using generated_first_move_score[OF assms(1)] cats_score[OF assms(3,4)] assms(2) by simp

text \<open>
  Claim C1, as amended. On the empty board, with the rack C, A, T, S, X, X, X and a
  lexicon in which CAT and CATS are valid, the first-move generator emits the horizontal
  placements of CATS whose span includes the centre cell (7,7), and the score computed
  for each of them is (3 + 1 + 1 + 1) * 2 = 12: the letter C is worth 3, and the centre
  cell is a double-word square.
\<close>

theorem first_move_cats:
  assumes "is_valid_word D ''CAT''" and "is_valid_word D ''CATS''"
  shows "(\<forall>start. start \<le> 7 \<and> 7 < start + 4 \<longrightarrow>
            Place (cats_at start) 12 \<in> set (generate_first_move D empty_board cats_rack))
       \<and> (\<forall>m\<in>set (generate_first_move D empty_board cats_rack).
            \<forall>start. start \<le> 7 \<and> 7 < start + 4 \<and> tiles_placed m = cats_at start \<longrightarrow> score m = 12)"
  using cats_emitted[OF assms(2)] cats_moves_score by blast

theorem first_move_cats_witness:
  "is_valid_word {''CAT'', ''CATS''} ''CAT'' \<and> is_valid_word {''CAT'', ''CATS''} ''CATS''
   \<and> Place (cats_at 4) 12 \<in> set (generate_first_move {''CAT'', ''CATS''} empty_board cats_rack)"
proof -
  have v: "is_valid_word {''CAT'', ''CATS''} ''CAT''" "is_valid_word {''CAT'', ''CATS''} ''CATS''"
    by code_simp+
  show ?thesis
    using first_move_cats[OF v] v by simp
qed

text \<open>
  The claim as stated fails: no horizontal placement of CATS through the centre that the
  generator emits scores 4.
\<close>

theorem first_move_cats_not_four:
  "is_valid_word {''CAT'', ''CATS''} ''CAT'' \<and> is_valid_word {''CAT'', ''CATS''} ''CATS''
   \<and> \<not> (\<exists>m\<in>set (generate_first_move {''CAT'', ''CATS''} empty_board cats_rack).
          \<exists>start. start \<le> 7 \<and> 7 < start + 4 \<and> tiles_placed m = cats_at start \<and> score m = 4)
   \<and> letter_value ''C'' = 3 \<and> PREMIUM_BOARD ! 7 ! 7 = 4
   \<and> calculate_score empty_board (cats_at 4) = 12"
proof -
  have v: "is_valid_word {''CAT'', ''CATS''} ''CAT''" "is_valid_word {''CAT'', ''CATS''} ''CATS''"
    by code_simp+
  have c: "letter_value ''C'' = 3" "PREMIUM_BOARD ! 7 ! 7 = 4"
    by code_simp+
  have "score m \<noteq> 4"
    if "m \<in> set (generate_first_move {''CAT'', ''CATS''} empty_board cats_rack)"
      and "start \<le> 7" and "7 < start + 4" and "tiles_placed m = cats_at start" for m start
    using cats_moves_score[OF that(1,4,2,3)] by simp
  then show ?thesis
    using v c cats_score_each(1) by blast
qed

section \<open>Connected moves\<close>

lemma in_concat_map_guard:
  "m \<in> set (concat (map (\<lambda>x. if P x then [] else g x) xs)) \<longleftrightarrow>
     (\<exists>x\<in>set xs. \<not> P x \<and> m \<in> set (g x))"
  by (induction xs) auto

lemma in_try_placement:
  "m \<in> set (try_placement D b rack anchor_row anchor_col horizontal word_cells) \<longleftrightarrow>
     (\<exists>tiles. lay_word b word_cells = Some tiles \<and> tiles \<noteq> []
        \<and> can_place rack (map (snd \<circ> snd) tiles)
        \<and> is_valid_word D (get_word_at (place_tiles b tiles) anchor_row anchor_col horizontal)
        \<and> validate_placement D b tiles horizontal
        \<and> m = Place tiles (calculate_score b tiles))"
  by (cases "lay_word b word_cells") (auto simp: try_placement_def)

lemma in_anchor_placements:
  "m \<in> set (anchor_placements D b rack anchor_row anchor_col horizontal perm word_len) \<longleftrightarrow>
     (\<exists>pos<word_len.
        (if horizontal then pos \<le> anchor_col \<and> anchor_col - pos + word_len \<le> BOARD_SIZE
         else pos \<le> anchor_row \<and> anchor_row - pos + word_len \<le> BOARD_SIZE)
        \<and> m \<in> set (try_placement D b rack anchor_row anchor_col horizontal
                      (anchor_span anchor_row anchor_col horizontal perm word_len pos)))"
proof (cases horizontal)
  case True
  have eq: "anchor_placements D b rack anchor_row anchor_col True perm word_len =
      concat (map (\<lambda>pos. if anchor_col < pos \<or> anchor_col - pos + word_len > BOARD_SIZE then []
                 else try_placement D b rack anchor_row anchor_col True
                        (anchor_span anchor_row anchor_col True perm word_len pos)) [0..<word_len])"
    by (simp add: anchor_placements_def anchor_span_def Let_def cong: if_cong)
  have "m \<in> set (anchor_placements D b rack anchor_row anchor_col True perm word_len) \<longleftrightarrow>
     (\<exists>pos<word_len. (pos \<le> anchor_col \<and> anchor_col - pos + word_len \<le> BOARD_SIZE)
        \<and> m \<in> set (try_placement D b rack anchor_row anchor_col True
                      (anchor_span anchor_row anchor_col True perm word_len pos)))"
    unfolding eq in_concat_map_guard by (simp only: set_upt) (auto simp: not_less)
  then show ?thesis using True by simp
next
  case False
  have eq: "anchor_placements D b rack anchor_row anchor_col False perm word_len =
      concat (map (\<lambda>pos. if anchor_row < pos \<or> anchor_row - pos + word_len > BOARD_SIZE then []
                 else try_placement D b rack anchor_row anchor_col False
                        (anchor_span anchor_row anchor_col False perm word_len pos)) [0..<word_len])"
    by (simp add: anchor_placements_def anchor_span_def Let_def cong: if_cong)
  have "m \<in> set (anchor_placements D b rack anchor_row anchor_col False perm word_len) \<longleftrightarrow>
     (\<exists>pos<word_len. (pos \<le> anchor_row \<and> anchor_row - pos + word_len \<le> BOARD_SIZE)
        \<and> m \<in> set (try_placement D b rack anchor_row anchor_col False
                      (anchor_span anchor_row anchor_col False perm word_len pos)))"
    unfolding eq in_concat_map_guard by (simp only: set_upt) (auto simp: not_less)
  then show ?thesis using False by simp
qed

lemma in_build_words_at_anchor:
  "m \<in> set (build_words_at_anchor D b rack anchor_row anchor_col horizontal) \<longleftrightarrow>
     (\<exists>word_len perm. 2 \<le> word_len \<and> word_len \<le> length rack
        \<and> perm \<in> set (permutations rack word_len) \<and> is_valid_word D (concat perm)
        \<and> m \<in> set (anchor_placements D b rack anchor_row anchor_col horizontal perm word_len))"
proof -
  have "m \<in> set (build_words_at_anchor D b rack anchor_row anchor_col horizontal) \<longleftrightarrow>
     (\<exists>word_len\<in>set [2..<length rack + 1]. \<exists>perm\<in>set (permutations rack word_len).
        is_valid_word D (concat perm)
        \<and> m \<in> set (anchor_placements D b rack anchor_row anchor_col horizontal perm word_len))"
    unfolding build_words_at_anchor_def set_concat set_map
    by (auto simp del: upt_Suc set_upt split: if_splits)
  also have "\<dots> \<longleftrightarrow>
     (\<exists>word_len perm. 2 \<le> word_len \<and> word_len \<le> length rack
        \<and> perm \<in> set (permutations rack word_len) \<and> is_valid_word D (concat perm)
        \<and> m \<in> set (anchor_placements D b rack anchor_row anchor_col horizontal perm word_len))"
    by (simp only: set_upt) auto
  finally show ?thesis .
qed

lemma in_find_anchors:
  "(r, c) \<in> set (find_anchors b) \<longleftrightarrow>
     r < BOARD_SIZE \<and> c < BOARD_SIZE \<and> cell b r c = [] \<and> adjacent_filled b r c"
  unfolding find_anchors_def set_concat set_map
  by (auto simp del: upt_Suc split: if_splits)

lemma in_generate_connected_moves:
  "m \<in> set (generate_connected_moves D b rack) \<longleftrightarrow>
     (\<exists>anchor_row anchor_col horizontal.
        (anchor_row, anchor_col) \<in> set (find_anchors b)
        \<and> m \<in> set (build_words_at_anchor D b rack anchor_row anchor_col horizontal))"
  unfolding generate_connected_moves_def set_concat set_map
  by (auto split: prod.splits) (metis (full_types))+

lemma lay_word_Some:
  "lay_word b word_cells = Some tiles \<Longrightarrow>
   tiles = filter (\<lambda>(r, c, l). cell b r c = []) word_cells
   \<and> (\<forall>(r, c, l)\<in>set word_cells. cell b r c = [] \<or> cell b r c = l)"
  by (induction b word_cells arbitrary: tiles rule: lay_word.induct) (auto split: if_splits)

lemma anchor_span_coords:
  "map (\<lambda>(r, c, l). (r, c)) (anchor_span ar ac horizontal perm word_len pos) =
     (if horizontal then map (\<lambda>i. (ar, ac - pos + i)) [0..<word_len]
      else map (\<lambda>i. (ar - pos + i, ac)) [0..<word_len])"
  by (simp add: anchor_span_def)

lemma distinct_anchor_span:
  "distinct (map (\<lambda>(r, c, l). (r, c)) (anchor_span ar ac horizontal perm word_len pos))"
  by (simp add: anchor_span_coords distinct_map inj_on_def)

lemma anchor_span_letters:
  "length perm = word_len \<Longrightarrow>
   map (snd \<circ> snd) (anchor_span ar ac horizontal perm word_len pos) = perm"
  by (auto simp: anchor_span_def intro: nth_equalityI)

lemma in_anchor_span:
  "(r, c, l) \<in> set (anchor_span ar ac horizontal perm word_len pos) \<longleftrightarrow>
     (\<exists>i<word_len. l = perm ! i \<and>
        (if horizontal then r = ar \<and> c = ac - pos + i else r = ar - pos + i \<and> c = ac))"
  by (auto simp: anchor_span_def)

lemma distinct_coords_filter:
  "distinct (map (\<lambda>(r, c, l). (r, c)) ts) \<Longrightarrow> distinct (map (\<lambda>(r, c, l). (r, c)) (filter P ts))"
  by (simp add: distinct_map_filter)

lemma mset_letters_filter:
  "mset (map (snd \<circ> snd) (filter P ts)) \<subseteq># mset (map (snd \<circ> snd) ts)"
  by (metis image_mset_subseteq_mono mset_filter mset_map multiset_filter_subset)

lemma first_move_placeable:
  assumes "m \<in> set (generate_first_move D b rack)" and "board_empty b"
  shows "placeable b rack (tiles_placed m) \<and> \<not> is_pass m
         \<and> score m = calculate_score b (tiles_placed m)"
proof -
  from assms(1) obtain len perm where len: "2 \<le> len" "len \<le> length rack"
    and perm: "perm \<in> set (permutations rack len)"
    and m: "m \<in> set (first_move_placements b perm len)"
    unfolding in_generate_first_move by blast
  have lp: "length perm = len" "mset perm \<subseteq># mset rack"
    using permutations_length_mset[OF perm] by simp_all
  have empty: "cell b r c = []" if "r < BOARD_SIZE" "c < BOARD_SIZE" for r c
    using assms(2) that by (auto simp: board_empty_def list_all_iff)
  have letters: "map (\<lambda>i. perm ! i) [0..<len] = perm"
    using lp(1) by (auto intro: nth_equalityI)
  from m obtain start where st: "start + len \<le> 15" "start \<le> 7" "7 < start + len"
    and mm: "m = Place (map (\<lambda>i. (7, start + i, perm ! i)) [0..<len])
                   (calculate_score b (map (\<lambda>i. (7, start + i, perm ! i)) [0..<len]))
           \<or> m = Place (map (\<lambda>i. (start + i, 7, perm ! i)) [0..<len])
                   (calculate_score b (map (\<lambda>i. (start + i, 7, perm ! i)) [0..<len]))"
    unfolding in_first_move_placements by blast
  from mm show ?thesis
  proof
    assume "m = Place (map (\<lambda>i. (7, start + i, perm ! i)) [0..<len])
                   (calculate_score b (map (\<lambda>i. (7, start + i, perm ! i)) [0..<len]))"
    then show ?thesis
      using len st lp(2) letters
      by (auto simp: placeable_def Place_def distinct_map inj_on_def o_def BOARD_SIZE_def
            intro!: empty)
  next
    assume "m = Place (map (\<lambda>i. (start + i, 7, perm ! i)) [0..<len])
                   (calculate_score b (map (\<lambda>i. (start + i, 7, perm ! i)) [0..<len]))"
    then show ?thesis
      using len st lp(2) letters
      by (auto simp: placeable_def Place_def distinct_map inj_on_def o_def BOARD_SIZE_def
            intro!: empty)
  qed
qed

lemma connected_move_cases:
  assumes "m \<in> set (generate_connected_moves D b rack)"
  obtains ar ac horizontal word_len perm pos tiles where
    "(ar, ac) \<in> set (find_anchors b)" "2 \<le> word_len" "word_len \<le> length rack"
    "perm \<in> set (permutations rack word_len)" "is_valid_word D (concat perm)"
    "pos < word_len"
    "if horizontal then pos \<le> ac \<and> ac - pos + word_len \<le> BOARD_SIZE
     else pos \<le> ar \<and> ar - pos + word_len \<le> BOARD_SIZE"
    "lay_word b (anchor_span ar ac horizontal perm word_len pos) = Some tiles"
    "tiles \<noteq> []" "can_place rack (map (snd \<circ> snd) tiles)"
    "is_valid_word D (get_word_at (place_tiles b tiles) ar ac horizontal)"
    "validate_placement D b tiles horizontal"
    "m = Place tiles (calculate_score b tiles)"
proof -
  from assms obtain ar ac horizontal where a: "(ar, ac) \<in> set (find_anchors b)"
    and 1: "m \<in> set (build_words_at_anchor D b rack ar ac horizontal)"
    unfolding in_generate_connected_moves by blast
  from 1 obtain word_len perm where w: "2 \<le> word_len" "word_len \<le> length rack"
    "perm \<in> set (permutations rack word_len)" "is_valid_word D (concat perm)"
    and 2: "m \<in> set (anchor_placements D b rack ar ac horizontal perm word_len)"
    unfolding in_build_words_at_anchor by blast
  from 2 obtain pos where p: "pos < word_len"
    "if horizontal then pos \<le> ac \<and> ac - pos + word_len \<le> BOARD_SIZE
     else pos \<le> ar \<and> ar - pos + word_len \<le> BOARD_SIZE"
    and 3: "m \<in> set (try_placement D b rack ar ac horizontal
                      (anchor_span ar ac horizontal perm word_len pos))"
    unfolding in_anchor_placements by blast
  from 3 obtain tiles where
    "lay_word b (anchor_span ar ac horizontal perm word_len pos) = Some tiles"
    "tiles \<noteq> []" "can_place rack (map (snd \<circ> snd) tiles)"
    "is_valid_word D (get_word_at (place_tiles b tiles) ar ac horizontal)"
    "validate_placement D b tiles horizontal"
    "m = Place tiles (calculate_score b tiles)"
    unfolding in_try_placement by blast
  with a w p show ?thesis by (rule that)
qed

lemma anchor_span_in_range:
  assumes "ar < BOARD_SIZE" "ac < BOARD_SIZE"
    and "if horizontal then pos \<le> ac \<and> ac - pos + word_len \<le> BOARD_SIZE
         else pos \<le> ar \<and> ar - pos + word_len \<le> BOARD_SIZE"
    and "(r, c, l) \<in> set (anchor_span ar ac horizontal perm word_len pos)"
  shows "r < BOARD_SIZE \<and> c < BOARD_SIZE"
  using assms by (cases horizontal) (auto simp: in_anchor_span)

lemma connected_move_placeable:
  assumes "m \<in> set (generate_connected_moves D b rack)"
  shows "placeable b rack (tiles_placed m) \<and> \<not> is_pass m
         \<and> score m = calculate_score b (tiles_placed m)"
proof -
  from assms obtain ar ac horizontal word_len perm pos tiles where
    a: "(ar, ac) \<in> set (find_anchors b)"
    and perm: "perm \<in> set (permutations rack word_len)"
    and rng: "if horizontal then pos \<le> ac \<and> ac - pos + word_len \<le> BOARD_SIZE
              else pos \<le> ar \<and> ar - pos + word_len \<le> BOARD_SIZE"
    and lay: "lay_word b (anchor_span ar ac horizontal perm word_len pos) = Some tiles"
    and ne: "tiles \<noteq> []"
    and m: "m = Place tiles (calculate_score b tiles)"
    by (rule connected_move_cases)
  let ?span = "anchor_span ar ac horizontal perm word_len pos"
  have lp: "length perm = word_len" "mset perm \<subseteq># mset rack"
    using permutations_length_mset[OF perm] by simp_all
  have tiles: "tiles = filter (\<lambda>(r, c, l). cell b r c = []) ?span"
    using lay_word_Some[OF lay] by simp
  have anc: "ar < BOARD_SIZE" "ac < BOARD_SIZE"
    using a by (simp_all add: in_find_anchors)
  have d: "distinct (map (\<lambda>(r, c, l). (r, c)) tiles)"
    unfolding tiles by (rule distinct_coords_filter) (rule distinct_anchor_span)
  have r: "r < BOARD_SIZE \<and> c < BOARD_SIZE \<and> cell b r c = []" if "(r, c, l) \<in> set tiles" for r c l
    using that anchor_span_in_range[OF anc rng, of r c l perm] by (auto simp: tiles)
  have "mset (map (snd \<circ> snd) tiles) \<subseteq># mset (map (snd \<circ> snd) ?span)"
    unfolding tiles by (rule mset_letters_filter)
  then have l: "mset (map (snd \<circ> snd) tiles) \<subseteq># mset rack"
    using lp by (simp add: anchor_span_letters subset_mset.order_trans del: mset_map)
  show ?thesis
    using ne d r l by (auto simp: placeable_def m Place_def)
qed

lemma legal_move_cases:
  assumes "m \<in> set (get_legal_moves D s p)"
  shows "m = Pass \<or> (placeable (board s) (the (racks s p)) (tiles_placed m) \<and> \<not> is_pass m
                     \<and> score m = calculate_score (board s) (tiles_placed m))"
  using assms first_move_placeable[of m D "board s" "the (racks s p)"]
    connected_move_placeable[of m D "board s" "the (racks s p)"]
  by (auto simp: get_legal_moves_def Let_def split: if_splits)

section \<open>Tile conservation\<close>

lemma filled_row_update:
  fixes row :: "string list"
  assumes "c < length row" "row ! c = []" "l \<noteq> []"
  shows "length (filter (\<lambda>x. x \<noteq> []) (row[c := l])) = Suc (length (filter (\<lambda>x. x \<noteq> []) row))"
proof -
  let ?P = "\<lambda>x::string. x \<noteq> []"
  have "filter ?P row = filter ?P (take c row @ row ! c # drop (Suc c) row)"
    by (rule arg_cong[OF id_take_nth_drop[OF assms(1)]])
  then have 1: "filter ?P row = filter ?P (take c row) @ filter ?P (drop (Suc c) row)"
    using assms(2) by simp
  have "filter ?P (row[c := l]) = filter ?P (take c row @ l # drop (Suc c) row)"
    by (rule arg_cong[OF upd_conv_take_nth_drop[OF assms(1)]])
  then have 2: "filter ?P (row[c := l]) = filter ?P (take c row) @ l # filter ?P (drop (Suc c) row)"
    using assms(3) by simp
  show ?thesis
    unfolding 1 2 by simp
qed

lemma count_tiles_put_tile:
  assumes "r < length b" "c < length (b ! r)" "cell b r c = []" "l \<noteq> []"
  shows "count_tiles (put_tile b (r, c, l)) = Suc (count_tiles b)"
proof -
  let ?f = "\<lambda>row. length (filter (\<lambda>x. x \<noteq> []) row)"
  have "count_tiles (put_tile b (r, c, l)) = sum_list ((map ?f b)[r := ?f ((b ! r)[c := l])])"
    by (simp add: count_tiles_def put_tile_def map_update)
  also have "\<dots> = sum_list (map ?f b) + ?f ((b ! r)[c := l]) - (map ?f b) ! r"
    using assms(1) by (simp add: sum_list_update)
  also have "\<dots> = Suc (count_tiles b)"
    using assms filled_row_update[of c "b ! r" l] by (simp add: count_tiles_def cell_def)
  finally show ?thesis .
qed

lemma count_tiles_place_tiles:
  assumes "distinct (map (\<lambda>(r, c, l). (r, c)) ts)"
    and "\<forall>t\<in>set ts. fst t < length b \<and> fst (snd t) < length (b ! fst t)
           \<and> cell b (fst t) (fst (snd t)) = [] \<and> snd (snd t) \<noteq> []"
  shows "count_tiles (place_tiles b ts) = count_tiles b + length ts"
  using assms
proof (induction ts arbitrary: b)
  case Nil
  then show ?case by simp
next
  case (Cons t ts)
  obtain r c l where t: "t = (r, c, l)" by (cases t)
  have 1: "count_tiles (put_tile b t) = Suc (count_tiles b)"
    using Cons.prems(2) by (simp add: t count_tiles_put_tile)
  have 2: "fst u < length (put_tile b t) \<and> fst (snd u) < length (put_tile b t ! fst u)
             \<and> cell (put_tile b t) (fst u) (fst (snd u)) = [] \<and> snd (snd u) \<noteq> []"
    if u: "u \<in> set ts" for u
  proof -
    obtain r' c' l' where u': "u = (r', c', l')" by (cases u)
    have "(r', c') \<noteq> (r, c)"
      using Cons.prems(1) u by (force simp: t u')
    then have "cell (put_tile b t) r' c' = cell b r' c'"
      by (auto simp: t cell_put_tile)
    moreover have "fst u < length b \<and> fst (snd u) < length (b ! fst u)
           \<and> cell b (fst u) (fst (snd u)) = [] \<and> snd (snd u) \<noteq> []"
      using Cons.prems(2) u by simp
    ultimately show ?thesis
      by (simp add: u')
  qed
  have "count_tiles (place_tiles (put_tile b t) ts) = count_tiles (put_tile b t) + length ts"
    using Cons.IH[of "put_tile b t"] 2 Cons.prems(1) by simp
  then show ?case using 1 by simp
qed

lemma remove_tiles_Cons:
  "remove_tiles rack (t # ts) = remove_tiles (if t \<in> set rack then remove1 t rack else rack) ts"
  by (simp add: remove_tiles_def)

lemma remove_tiles_Nil [simp]: "remove_tiles rack [] = rack"
  by (simp add: remove_tiles_def)

lemma length_remove_tiles:
  "mset ts \<subseteq># mset rack \<Longrightarrow> length (remove_tiles rack ts) + length ts = length rack"
proof (induction ts arbitrary: rack)
  case Nil
  then show ?case by simp
next
  case (Cons t ts)
  have "t \<in># mset rack"
    using Cons.prems by (simp add: insert_subset_eq_iff)
  then have t: "t \<in> set rack" by simp
  have "mset ts \<subseteq># mset (remove1 t rack)"
    using Cons.prems by (simp add: insert_subset_eq_iff)
  then have "length (remove_tiles (remove1 t rack) ts) + length ts = length (remove1 t rack)"
    by (rule Cons.IH)
  then show ?case
    using t length_pos_if_in_set[OF t] by (simp add: remove_tiles_Cons length_remove1)
qed

lemma set_remove_tiles: "set (remove_tiles rack ts) \<subseteq> set rack"
proof (induction ts arbitrary: rack)
  case Nil
  then show ?case by simp
next
  case (Cons t ts)
  show ?case
    using Cons.IH[of "remove1 t rack"] Cons.IH[of rack] set_remove1_subset[of t rack]
    by (auto simp: remove_tiles_Cons)
qed

lemma draw_loop_mset:
  "n \<le> length pool \<Longrightarrow> draw_loop rnd k n pool drawn = (d', p') \<Longrightarrow>
   mset d' + mset p' = mset drawn + mset pool \<and> length d' = length drawn + n"
proof (induction n arbitrary: k pool drawn)
  case 0
  then show ?case by simp
next
  case (Suc n)
  let ?tile = "pool ! (rnd k mod length pool)"
  have ne: "pool \<noteq> []" using Suc.prems(1) by auto
  then have mem: "?tile \<in> set pool" by simp
  have len: "n \<le> length (remove1 ?tile pool)"
    using Suc.prems(1) mem by (simp add: length_remove1)
  have "draw_loop rnd (Suc k) n (remove1 ?tile pool) (drawn @ [?tile]) = (d', p')"
    using Suc.prems(2) by (simp add: Let_def)
  from Suc.IH[OF len this] show ?case
    using mem by simp
qed

lemma draw_tiles_mset:
  assumes "draw_tiles rnd pool n = (drawn, pool')"
  shows "mset drawn + mset pool' = mset pool" and "length drawn = min n (length pool)"
  using draw_loop_mset[of "min n (length pool)" pool rnd 0 "[]" drawn pool'] assms
  by (simp_all add: draw_tiles_def Let_def)

lemma wf_tiles_iff: "wf_tiles ts \<longleftrightarrow> (\<forall>t\<in>set ts. length t = 1)"
  by (simp add: wf_tiles_def list_all_iff)

lemma wf_tiles_mset: "mset ts = mset us \<Longrightarrow> wf_tiles ts = wf_tiles us"
  by (auto simp: wf_tiles_iff dest: mset_eq_setD)

lemma wf_board_iff:
  "wf_board b \<longleftrightarrow>
     length b = BOARD_SIZE \<and> (\<forall>r<BOARD_SIZE. length (b ! r) = BOARD_SIZE)
     \<and> (\<forall>r<BOARD_SIZE. \<forall>c<BOARD_SIZE. length (cell b r c) \<le> 1)"
  by (auto simp: wf_board_def list_all_length cell_def)

lemma wf_board_place_tiles:
  assumes "wf_board b" and "\<forall>t\<in>set ts. length (snd (snd t)) \<le> 1"
  shows "wf_board (place_tiles b ts)"
  using assms
proof (induction ts arbitrary: b)
  case Nil
  then show ?case by simp
next
  case (Cons t ts)
  obtain r c l where t: "t = (r, c, l)" by (cases t)
  have "wf_board (put_tile b t)"
    using Cons.prems by (auto simp: wf_board_iff t cell_put_tile)
  then show ?case
    using Cons.IH[of "put_tile b t"] Cons.prems(2) by simp
qed

lemma placeable_letters:
  assumes "placeable b rack tiles" and "t \<in> set tiles"
  shows "snd (snd t) \<in> set rack"
proof -
  have "snd (snd t) \<in># mset (map (snd \<circ> snd) tiles)"
    using assms(2) by auto
  then have "snd (snd t) \<in># mset rack"
    using assms(1) unfolding placeable_def by (meson mset_subset_eqD)
  then show ?thesis by simp
qed

lemma count_tiles_placeable:
  assumes "wf_board b" and "placeable b rack tiles" and "wf_tiles rack"
  shows "count_tiles (place_tiles b tiles) = count_tiles b + length tiles"
proof (rule count_tiles_place_tiles)
  show "distinct (map (\<lambda>(r, c, l). (r, c)) tiles)"
    using assms(2) by (simp add: placeable_def)
  show "\<forall>t\<in>set tiles. fst t < length b \<and> fst (snd t) < length (b ! fst t)
           \<and> cell b (fst t) (fst (snd t)) = [] \<and> snd (snd t) \<noteq> []"
  proof
    fix t assume t: "t \<in> set tiles"
    obtain r c l where t': "t = (r, c, l)" by (cases t)
    have "r < BOARD_SIZE \<and> c < BOARD_SIZE \<and> cell b r c = []"
      using assms(2) t unfolding placeable_def t' by blast
    moreover have "length l = 1"
      using placeable_letters[OF assms(2) t] assms(3) by (simp add: wf_tiles_iff t')
    ultimately show "fst t < length b \<and> fst (snd t) < length (b ! fst t)
           \<and> cell b (fst t) (fst (snd t)) = [] \<and> snd (snd t) \<noteq> []"
      using assms(1) by (auto simp: wf_board_iff t')
  qed
qed

lemma wf_state_racks:
  assumes "wf_state s"
  obtains r1 r2 where "racks s 1 = Some r1" "racks s 2 = Some r2" "wf_tiles r1" "wf_tiles r2"
  using assms by (auto simp: wf_state_def split: option.splits)

lemma apply_pass_conserves:
  assumes "wf_state s"
  shows "wf_state (apply_move rnd s Pass) \<and> tile_total (apply_move rnd s Pass) = tile_total s"
  using assms
  by (auto simp: wf_state_def tile_total_def Pass_def board_apply_move racks_apply_move
        tile_pool_apply_move scores_apply_move current_player_apply_move)

lemma apply_place_conserves:
  assumes wf: "wf_state s" and pl: "placeable (board s) (the (racks s (current_player s))) (tiles_placed m)"
    and np: "\<not> is_pass m"
  shows "wf_state (apply_move rnd s m) \<and> tile_total (apply_move rnd s m) = tile_total s"
proof -
  let ?cp = "current_player s"
  let ?rack = "the (racks s ?cp)"
  let ?tiles = "tiles_placed m"
  let ?letters = "map (snd \<circ> snd) ?tiles"
  obtain drawn pool' where dr: "draw_tiles rnd (tile_pool s) (length ?tiles) = (drawn, pool')"
    by (cases "draw_tiles rnd (tile_pool s) (length ?tiles)")
  from wf obtain r1 r2 where r: "racks s 1 = Some r1" "racks s 2 = Some r2" "wf_tiles r1" "wf_tiles r2"
    by (rule wf_state_racks)
  have cp: "?cp = 1 \<or> ?cp = 2" and wb: "wf_board (board s)" and wp: "wf_tiles (tile_pool s)"
    and sc: "scores s 1 \<noteq> None" "scores s 2 \<noteq> None"
    using wf by (simp_all add: wf_state_def)
  have wr: "wf_tiles ?rack" using cp r by auto
  have ms: "mset drawn + mset pool' = mset (tile_pool s)"
    using draw_tiles_mset(1)[OF dr] .
  then have "size (mset drawn + mset pool') = size (mset (tile_pool s))" by simp
  then have len_pool: "length drawn + length pool' = length (tile_pool s)" by simp
  have "set_mset (mset drawn + mset pool') = set_mset (mset (tile_pool s))" using ms by simp
  then have sets: "set drawn \<union> set pool' = set (tile_pool s)" by simp
  have wd: "wf_tiles drawn" "wf_tiles pool'"
    using wp sets by (auto simp: wf_tiles_iff)
  have len_rack: "length (remove_tiles ?rack ?letters) + length ?tiles = length ?rack"
    using length_remove_tiles[of ?letters ?rack] pl by (simp add: placeable_def)
  have wrem: "wf_tiles (remove_tiles ?rack ?letters)"
    using wr set_remove_tiles[of ?rack ?letters] by (auto simp: wf_tiles_iff)
  have wnew: "wf_tiles (remove_tiles ?rack ?letters @ drawn)"
    using wrem wd(1) by (auto simp: wf_tiles_iff)
  have cnt: "count_tiles (place_tiles (board s) ?tiles) = count_tiles (board s) + length ?tiles"
    using count_tiles_placeable[OF wb pl wr] .
  have tl: "\<forall>t\<in>set ?tiles. length (snd (snd t)) \<le> 1"
    using placeable_letters[OF pl] wr by (auto simp: wf_tiles_iff)
  have wb': "wf_board (place_tiles (board s) ?tiles)"
    using wb tl by (rule wf_board_place_tiles)
  have rk: "racks (apply_move rnd s m) = (racks s)(?cp \<mapsto> remove_tiles ?rack ?letters @ drawn)"
    using np dr by (simp add: racks_apply_move)
  have pool: "tile_pool (apply_move rnd s m) = pool'"
    using np dr by (simp add: tile_pool_apply_move)
  have bd: "board (apply_move rnd s m) = place_tiles (board s) ?tiles"
    using np by (simp add: board_apply_move)
  have wf': "wf_state (apply_move rnd s m)"
    using cp r wb' wd(2) wnew sc np
    by (auto simp: wf_state_def rk pool bd scores_apply_move current_player_apply_move)
  have "tile_total (apply_move rnd s m) = tile_total s"
    using cp r len_rack len_pool cnt
    by (auto simp: tile_total_def rk pool bd)
  with wf' show ?thesis by simp
qed

lemma apply_legal_conserves:
  assumes "wf_state s" and "m \<in> set (get_legal_moves D s (current_player s))"
  shows "wf_state (apply_move rnd s m) \<and> tile_total (apply_move rnd s m) = tile_total s"
  using legal_move_cases[OF assms(2)] apply_pass_conserves[OF assms(1)]
    apply_place_conserves[OF assms(1)]
  by blast

lemma deal_mset:
  "deal n pool rack = (rack', pool') \<Longrightarrow> mset rack' + mset pool' = mset rack + mset pool"
proof (induction n arbitrary: pool rack)
  case 0
  then show ?case by simp
next
  case (Suc n)
  show ?case
  proof (cases "pool = []")
    case True
    then show ?thesis using Suc by simp
  next
    case False
    then have "deal n (butlast pool) (rack @ [last pool]) = (rack', pool')"
      using Suc.prems by simp
    from Suc.IH[OF this] have "mset rack' + mset pool' = mset rack + mset (butlast pool @ [last pool])"
      by simp
    then show ?thesis using False by simp
  qed
qed

lemma tile_bag_facts:
  "length (concat (map (\<lambda>(letter, cnt). replicate cnt letter) tile_distribution)) = 100"
  "wf_tiles (concat (map (\<lambda>(letter, cnt). replicate cnt letter) tile_distribution))"
  by code_simp+

lemma empty_board_facts:
  "wf_board (replicate BOARD_SIZE (replicate BOARD_SIZE []))"
  "count_tiles (replicate BOARD_SIZE (replicate BOARD_SIZE [])) = 0"
  by code_simp+

lemma create_new_game_conserves:
  assumes "\<forall>xs. mset (shuffle xs) = mset xs"
  shows "wf_state (create_new_game shuffle) \<and> tile_total (create_new_game shuffle) = 100"
proof -
  let ?bag = "concat (map (\<lambda>(letter, cnt). replicate cnt letter) tile_distribution)"
  obtain rack1 pool1 where d1: "deal RACK_SIZE (shuffle ?bag) [] = (rack1, pool1)"
    by (cases "deal RACK_SIZE (shuffle ?bag) []")
  obtain rack2 pool2 where d2: "deal RACK_SIZE pool1 [] = (rack2, pool2)"
    by (cases "deal RACK_SIZE pool1 []")
  have m0: "mset (shuffle ?bag) = mset ?bag" using assms by simp
  have m1: "mset rack1 + mset pool1 = mset (shuffle ?bag)"
    using deal_mset[OF d1] by simp
  have m2: "mset rack2 + mset pool2 = mset pool1"
    using deal_mset[OF d2] by simp
  have "mset rack1 + mset rack2 + mset pool2 = mset rack1 + (mset rack2 + mset pool2)"
    by (simp add: ac_simps)
  also have "\<dots> = mset ?bag"
    unfolding m2 m1 m0 ..
  finally have all: "mset rack1 + mset rack2 + mset pool2 = mset ?bag" .
  then have "size (mset rack1 + mset rack2 + mset pool2) = size (mset ?bag)" by simp
  then have len: "length rack1 + length rack2 + length pool2 = 100"
    using tile_bag_facts(1) by simp
  have "set_mset (mset rack1 + mset rack2 + mset pool2) = set_mset (mset ?bag)"
    using all by simp
  then have "set rack1 \<union> set rack2 \<union> set pool2 = set ?bag" by simp
  then have w: "wf_tiles rack1" "wf_tiles rack2" "wf_tiles pool2"
    using tile_bag_facts(2) by (auto simp: wf_tiles_iff)
  have eq: "create_new_game shuffle =
      \<lparr>board = replicate BOARD_SIZE (replicate BOARD_SIZE []), tile_pool = pool2,
       racks = [1 \<mapsto> rack1, 2 \<mapsto> rack2], current_player = 1,
       scores = [1 \<mapsto> 0, 2 \<mapsto> 0], passes_in_a_row = 0\<rparr>"
    by (simp add: create_new_game_def Let_def d1 d2)
  show ?thesis
    unfolding eq using len w empty_board_facts
    by (simp add: wf_state_def tile_total_def)
qed

lemma reachable_conserves:
  "reachable D s \<Longrightarrow> wf_state s \<and> tile_total s = 100"
proof (induction rule: reachable.induct)
  case (start shuffle)
  then show ?case by (rule create_new_game_conserves)
next
  case (move s m rnd)
  then show ?case using apply_legal_conserves[of s m D rnd] by simp
qed

lemma first_move_emitted:
  assumes "2 \<le> len" "len \<le> length rack" "is_valid_word D (concat (take len rack))"
    and "start + len \<le> 15" "start \<le> 7" "7 < start + len"
  shows "Place (map (\<lambda>i. (7, start + i, take len rack ! i)) [0..<len])
           (calculate_score b (map (\<lambda>i. (7, start + i, take len rack ! i)) [0..<len]))
         \<in> set (generate_first_move D b rack)"
proof -
  have "Place (map (\<lambda>i. (7, start + i, take len rack ! i)) [0..<len])
           (calculate_score b (map (\<lambda>i. (7, start + i, take len rack ! i)) [0..<len]))
         \<in> set (first_move_placements b (take len rack) len)"
    unfolding in_first_move_placements using assms(4-6)
    by (intro disjI1 exI[of _ start]) simp
  then show ?thesis
    unfolding in_generate_first_move
    using assms(1-3) take_in_permutations[OF assms(2)]
    by (intro exI[of _ len] exI[of _ "take len rack"]) simp
qed

lemma opening_facts:
  "current_player (create_new_game rev) = 1"
  "racks (create_new_game rev) 1 = Some [''A'', ''A'', ''A'', ''A'', ''A'', ''A'', ''A'']"
  "board (create_new_game rev) = empty_board"
  "\<not> is_terminal (create_new_game rev)"
  "board_empty (board (create_new_game rev))"
  by code_simp+

lemma opening_move_legal:
  "opening_move \<in> set (get_legal_moves {''AA''} (create_new_game rev)
                         (current_player (create_new_game rev)))"
proof -
  let ?rack = "[''A'', ''A'', ''A'', ''A'', ''A'', ''A'', ''A'']"
  have v: "is_valid_word {''AA''} (concat (take 2 ?rack))"
    by code_simp
  have sc: "calculate_score empty_board [(7, 6, ''A''), (7, 7, ''A'')] = 4"
    by code_simp
  have "Place (map (\<lambda>i. (7, 6 + i, take 2 ?rack ! i)) [0..<2])
           (calculate_score empty_board (map (\<lambda>i. (7, 6 + i, take 2 ?rack ! i)) [0..<2]))
         \<in> set (generate_first_move {''AA''} empty_board ?rack)"
    by (rule first_move_emitted[OF _ _ v]) simp_all
  moreover have "map (\<lambda>i. (7::nat, 6 + i, take 2 ?rack ! i)) [0..<2]
      = [(7, 6, ''A''), (7, 7, ''A'')]"
    by (simp add: upt_rec numeral_nat)
  ultimately have "opening_move \<in> set (generate_first_move {''AA''} empty_board ?rack)"
    by (simp only: opening_move_def sc)
  then show ?thesis
    using opening_facts by (simp add: get_legal_moves_def)
qed

text \<open>
  Claim C3. In every state reachable from \<^verbatim>\<open>create_new_game\<close> by applying moves
  that \<^verbatim>\<open>get_legal_moves\<close> returns for the state's current player, the sizes of
  the two racks, the size of the tile pool and the number of non-empty board cells add
  up to 100.
\<close>

theorem tile_conservation:
  assumes "reachable D s"
  shows "length (the (racks s 1)) + length (the (racks s 2)) + length (tile_pool s)
         + count_tiles (board s) = 100"
  using reachable_conserves[OF assms] by (simp add: tile_total_def)

theorem tile_conservation_witness:
  "reachable {''AA''} (apply_move (\<lambda>k. 0) (create_new_game rev) opening_move)
   \<and> length (the (racks (apply_move (\<lambda>k. 0) (create_new_game rev) opening_move) 1))
     + length (the (racks (apply_move (\<lambda>k. 0) (create_new_game rev) opening_move) 2))
     + length (tile_pool (apply_move (\<lambda>k. 0) (create_new_game rev) opening_move))
     + count_tiles (board (apply_move (\<lambda>k. 0) (create_new_game rev) opening_move)) = 100
   \<and> count_tiles (board (apply_move (\<lambda>k. 0) (create_new_game rev) opening_move)) = 2"
proof -
  have "reachable {''AA''} (create_new_game rev)"
    by (rule reachable.start) simp
  then have r: "reachable {''AA''} (apply_move (\<lambda>k. 0) (create_new_game rev) opening_move)"
    using opening_move_legal by (rule reachable.move)
  have c: "count_tiles (board (apply_move (\<lambda>k. 0) (create_new_game rev) opening_move)) = 2"
    by code_simp
  show ?thesis
    using r tile_conservation[OF r] c by simp
qed

section \<open>Runs of tiles on a line\<close>

lemma maximal_run_filled: "maximal_run line i j \<Longrightarrow> i \<le> k \<Longrightarrow> k \<le> j \<Longrightarrow> line k \<noteq> []"
  by (simp add: maximal_run_def list_all_iff del: upt_Suc)

lemma word_start_run:
  "maximal_run line i j \<Longrightarrow> i \<le> k \<Longrightarrow> k \<le> j \<Longrightarrow> word_start line k = i"
proof (induction k)
  case 0
  then show ?case by simp
next
  case (Suc k)
  show ?case
  proof (cases "i \<le> k")
    case True
    then have "line k \<noteq> []" using maximal_run_filled[OF Suc.prems(1), of k] Suc.prems(3) by simp
    then show ?thesis using Suc True by simp
  next
    case False
    then have i: "i = Suc k" using Suc.prems(2) by simp
    then have "line k = []" using Suc.prems(1) by (simp add: maximal_run_def)
    then show ?thesis using i by simp
  qed
qed

lemma word_end_run:
  "maximal_run line i j \<Longrightarrow> i \<le> k \<Longrightarrow> k \<le> j \<Longrightarrow> word_end line k = j"
proof (induction "j - k" arbitrary: k)
  case 0
  then have k: "k = j" by simp
  have "j = BOARD_SIZE - 1 \<or> line (j + 1) = []" using 0(2) by (simp add: maximal_run_def)
  then show ?case
    by (subst word_end.simps) (auto simp: k)
next
  case (Suc n)
  then have lt: "k < j" by simp
  have "j < BOARD_SIZE" using Suc.prems(1) by (simp add: maximal_run_def)
  then have 1: "k < BOARD_SIZE - 1" using lt by simp
  have 2: "line (k + 1) \<noteq> []"
    using maximal_run_filled[OF Suc.prems(1), of "k + 1"] Suc.prems(2) lt by simp
  have "word_end line (k + 1) = j"
    using Suc.hyps(1)[of "k + 1"] Suc.hyps(2) Suc.prems lt by simp
  then show ?case
    using 1 2 by (subst word_end.simps) simp
qed

lemma get_word_at_line:
  "get_word_at b row col horizontal =
     concat (map (line_of b horizontal row col)
       [word_start (line_of b horizontal row col) (pos_of horizontal row col)..<
        word_end (line_of b horizontal row col) (pos_of horizontal row col) + 1])"
  by (simp add: get_word_at_def line_of_def pos_of_def Let_def)

lemma get_word_at_run:
  assumes "maximal_run (line_of b horizontal row col) i j"
    and "i \<le> pos_of horizontal row col" and "pos_of horizontal row col \<le> j"
  shows "get_word_at b row col horizontal = concat (map (line_of b horizontal row col) [i..<j + 1])"
  unfolding get_word_at_line word_start_run[OF assms] word_end_run[OF assms] ..

lemma length_concat_filled:
  "\<forall>x\<in>set xs. f x \<noteq> [] \<Longrightarrow> length xs \<le> length (concat (map f xs))"
proof (induction xs)
  case Nil
  then show ?case by simp
next
  case (Cons x xs)
  then show ?case by (cases "f x") auto
qed

lemma run_word_length:
  assumes "maximal_run line i j" and "i < j"
  shows "1 < length (concat (map line [i..<j + 1]))"
proof -
  have "\<forall>k\<in>set [i..<j + 1]. line k \<noteq> []"
    using assms(1) by (simp add: maximal_run_def list_all_iff del: upt_Suc)
  from length_concat_filled[OF this] show ?thesis using assms(2) by simp
qed

lemma run_covers_filled_span:
  assumes run: "maximal_run line i j" and c: "i \<le> c" "c \<le> j"
    and span: "\<forall>k. s \<le> k \<and> k \<le> e \<longrightarrow> line k \<noteq> []" and sc: "s \<le> c" "c \<le> e"
    and e: "e < BOARD_SIZE"
  shows "i \<le> s \<and> e \<le> j"
proof -
  have "i \<le> s"
  proof (rule ccontr)
    assume "\<not> i \<le> s"
    then have "s \<le> i - 1" "i - 1 \<le> e" "i \<noteq> 0" using c sc by auto
    then have "line (i - 1) \<noteq> []" "i \<noteq> 0" using span by auto
    then show False using run by (simp add: maximal_run_def)
  qed
  moreover have "e \<le> j"
  proof (rule ccontr)
    assume "\<not> e \<le> j"
    then have "s \<le> j + 1" "j + 1 \<le> e" using c sc by auto
    then have "line (j + 1) \<noteq> []" "j \<noteq> BOARD_SIZE - 1" using span e by auto
    then show False using run by (simp add: maximal_run_def)
  qed
  ultimately show ?thesis ..
qed

lemma run_has_neighbour:
  assumes "maximal_run line i j" and "i \<le> p" "p \<le> j" and "i < j"
  shows "(0 < p \<and> line (p - 1) \<noteq> []) \<or> (p + 1 < BOARD_SIZE \<and> line (p + 1) \<noteq> [])"
proof (cases "i < p")
  case True
  then have "line (p - 1) \<noteq> []"
    using maximal_run_filled[OF assms(1), of "p - 1"] assms(3) by simp
  then show ?thesis using True by simp
next
  case False
  then have "p < j" using assms by simp
  then have "line (p + 1) \<noteq> []" "p + 1 < BOARD_SIZE"
    using maximal_run_filled[OF assms(1), of "p + 1"] assms(1,2) by (simp_all add: maximal_run_def)
  then show ?thesis by simp
qed

section \<open>Soundness of the generator\<close>

lemma anchor_span_cells:
  "anchor_span ar ac horizontal perm word_len pos =
     span_cells horizontal (pos_of (\<not> horizontal) ar ac) (pos_of horizontal ar ac - pos) perm word_len"
  by (simp add: anchor_span_def span_cells_def pos_of_def)

lemma in_span_cells:
  "(r, c, l) \<in> set (span_cells horizontal fixed start perm len) \<longleftrightarrow>
     (\<exists>k<len. l = perm ! k \<and> pos_of (\<not> horizontal) r c = fixed \<and> pos_of horizontal r c = start + k)"
  by (auto simp: span_cells_def pos_of_def)

lemma distinct_span_cells:
  "distinct (map (\<lambda>(r, c, l). (r, c)) (span_cells horizontal fixed start perm len))"
  by (auto simp: span_cells_def distinct_map inj_on_def o_def)

lemma line_of_pos:
  "line_of b horizontal r c k = (if horizontal then cell b r k else cell b k c)"
  by (simp add: line_of_def)

lemma line_of_fixed:
  "pos_of (\<not> horizontal) r c = pos_of (\<not> horizontal) r' c' \<Longrightarrow>
   line_of b horizontal r c = line_of b horizontal r' c'"
  by (auto simp: line_of_def pos_of_def)

text \<open>The board after the new tiles of a laid word are placed: along the span it spells
  the word.\<close>

lemma laid_span_line:
  assumes wb: "wf_board b" and fixed: "fixed < BOARD_SIZE" and fit: "start + len \<le> BOARD_SIZE"
    and lay: "lay_word b (span_cells horizontal fixed start perm len) = Some tiles"
    and line: "pos_of (\<not> horizontal) r c = fixed" and k: "k < len"
  shows "line_of (place_tiles b tiles) horizontal r c (start + k) = perm ! k"
proof -
  let ?span = "span_cells horizontal fixed start perm len"
  define r' c' where "r' = (if horizontal then fixed else start + k)"
    and "c' = (if horizontal then start + k else fixed)"
  have mem: "(r', c', perm ! k) \<in> set ?span"
    using k by (auto simp: in_span_cells r'_def c'_def pos_of_def)
  have rng: "r' < length b" "c' < length (b ! r')"
    using wb fixed fit k by (auto simp: wf_board_iff r'_def c'_def)
  have tiles: "tiles = filter (\<lambda>(r, c, l). cell b r c = []) ?span"
    and ok: "\<forall>(r, c, l)\<in>set ?span. cell b r c = [] \<or> cell b r c = l"
    using lay_word_Some[OF lay] by simp_all
  have d: "distinct (map (\<lambda>(r, c, l). (r, c)) tiles)"
    unfolding tiles by (rule distinct_coords_filter) (rule distinct_span_cells)
  have "cell (place_tiles b tiles) r' c' = perm ! k"
  proof (cases "cell b r' c' = []")
    case True
    then have "(r', c', perm ! k) \<in> set tiles" using mem by (simp add: tiles)
    then show ?thesis using cell_place_tiles_new[OF d _ rng] by simp
  next
    case False
    then have "(r', c') \<notin> set (map (\<lambda>(r, c, l). (r, c)) tiles)"
      by (auto simp: tiles)
    then have "cell (place_tiles b tiles) r' c' = cell b r' c'"
      by (rule cell_place_tiles_other)
    then show ?thesis using ok mem False by auto
  qed
  moreover have "line_of (place_tiles b tiles) horizontal r c (start + k)
      = cell (place_tiles b tiles) r' c'"
    using line by (auto simp: line_of_pos r'_def c'_def pos_of_def)
  ultimately show ?thesis by simp
qed

lemma laid_tile_in_span:
  assumes "lay_word b word_cells = Some tiles" and "t \<in> set tiles"
  shows "t \<in> set word_cells"
  using lay_word_Some[OF assms(1)] assms(2) by simp

text \<open>The main word: the run through a new tile, along the placement, is the run through
  the anchor.\<close>

lemma main_run_is_anchor_word:
  assumes wb: "wf_board b" and fixed: "fixed < BOARD_SIZE" and fit: "start + len \<le> BOARD_SIZE"
    and lay: "lay_word b (span_cells horizontal fixed start perm len) = Some tiles"
    and letters: "\<forall>k<len. perm ! k \<noteq> []"
    and anchor: "pos_of (\<not> horizontal) ar ac = fixed" "start \<le> pos_of horizontal ar ac"
      "pos_of horizontal ar ac < start + len"
    and tile: "(r, c, l) \<in> set tiles"
    and run: "maximal_run (line_of (place_tiles b tiles) horizontal r c) i j"
      "i \<le> pos_of horizontal r c" "pos_of horizontal r c \<le> j"
  shows "get_word_at (place_tiles b tiles) ar ac horizontal
         = concat (map (line_of (place_tiles b tiles) horizontal r c) [i..<j + 1])"
proof -
  let ?b = "place_tiles b tiles"
  let ?line = "line_of ?b horizontal r c"
  from laid_tile_in_span[OF lay tile] obtain k where k: "k < len"
    and rc: "pos_of (\<not> horizontal) r c = fixed" "pos_of horizontal r c = start + k"
    unfolding in_span_cells by blast
  have same: "line_of ?b horizontal ar ac = ?line"
    by (rule line_of_fixed) (simp add: anchor(1) rc(1))
  have filled: "\<forall>p. start \<le> p \<and> p \<le> start + len - 1 \<longrightarrow> ?line p \<noteq> []"
  proof (intro allI impI)
    fix p assume p: "start \<le> p \<and> p \<le> start + len - 1"
    then have "p - start < len" "p = start + (p - start)" using k by auto
    then show "?line p \<noteq> []"
      using laid_span_line[OF wb fixed fit lay rc(1), of "p - start"] letters by simp
  qed
  have "i \<le> start \<and> start + len - 1 \<le> j"
    using run_covers_filled_span[OF run(1) run(2,3) filled] rc(2) k fit by simp
  then have "i \<le> pos_of horizontal ar ac" "pos_of horizontal ar ac \<le> j"
    using anchor(2,3) by auto
  with run(1) show ?thesis
    unfolding same [symmetric] by (rule get_word_at_run)
qed

text \<open>A cross word: the run through a new tile, across the placement, is checked by
  \<^verbatim>\<open>_validate_placement\<close>.\<close>

lemma cross_run_valid:
  assumes val: "validate_placement D b tiles horizontal" and tile: "(r, c, l) \<in> set tiles"
    and run: "maximal_run (line_of (place_tiles b tiles) (\<not> horizontal) r c) i j"
      "i \<le> pos_of (\<not> horizontal) r c" "pos_of (\<not> horizontal) r c \<le> j" and lt: "i < j"
  shows "is_valid_word D (concat (map (line_of (place_tiles b tiles) (\<not> horizontal) r c) [i..<j + 1]))"
proof -
  let ?w = "get_word_at (place_tiles b tiles) r c (\<not> horizontal)"
  have "\<not> (length ?w > 1 \<and> \<not> is_valid_word D ?w)"
    using val tile by (auto simp: validate_placement_def Let_def list_all_iff)
  moreover have w: "?w = concat (map (line_of (place_tiles b tiles) (\<not> horizontal) r c) [i..<j + 1])"
    using run by (rule get_word_at_run)
  moreover have "1 < length ?w"
    unfolding w using run(1) lt by (rule run_word_length)
  ultimately show ?thesis by simp
qed

lemma permutation_letters:
  assumes "perm \<in> set (permutations rack len)" and "wf_tiles rack"
  shows "length perm = len" and "\<forall>k<len. perm ! k \<noteq> []"
proof -
  have lp: "length perm = len" "mset perm \<subseteq># mset rack"
    using permutations_length_mset[OF assms(1)] by simp_all
  then show "length perm = len" by simp
  show "\<forall>k<len. perm ! k \<noteq> []"
  proof (intro allI impI)
    fix k assume "k < len"
    then have "perm ! k \<in># mset perm" using lp(1) by simp
    then have "perm ! k \<in># mset rack" using lp(2) by (meson mset_subset_eqD)
    then have "length (perm ! k) = 1" using assms(2) by (simp add: wf_tiles_iff)
    then show "perm ! k \<noteq> []" by auto
  qed
qed

lemma connected_move_sound:
  assumes wb: "wf_board b" and wr: "wf_tiles rack"
    and m: "m \<in> set (generate_connected_moves D b rack)"
    and tile: "(r, c, l) \<in> set (tiles_placed m)"
    and run: "maximal_run (line_of (place_tiles b (tiles_placed m)) h r c) i j"
      "i \<le> pos_of h r c" "pos_of h r c \<le> j" and lt: "i < j"
  shows "is_valid_word D (concat (map (line_of (place_tiles b (tiles_placed m)) h r c) [i..<j + 1]))"
proof -
  from m obtain ar ac horizontal word_len perm pos tiles where
    a: "(ar, ac) \<in> set (find_anchors b)"
    and perm: "perm \<in> set (permutations rack word_len)"
    and pos: "pos < word_len"
    and rng: "if horizontal then pos \<le> ac \<and> ac - pos + word_len \<le> BOARD_SIZE
              else pos \<le> ar \<and> ar - pos + word_len \<le> BOARD_SIZE"
    and lay: "lay_word b (anchor_span ar ac horizontal perm word_len pos) = Some tiles"
    and main: "is_valid_word D (get_word_at (place_tiles b tiles) ar ac horizontal)"
    and val: "validate_placement D b tiles horizontal"
    and mm: "m = Place tiles (calculate_score b tiles)"
    by (rule connected_move_cases)
  have tp: "tiles_placed m = tiles" by (simp add: mm Place_def)
  let ?fixed = "pos_of (\<not> horizontal) ar ac"
  let ?start = "pos_of horizontal ar ac - pos"
  have anc: "ar < BOARD_SIZE" "ac < BOARD_SIZE"
    using a by (simp_all add: in_find_anchors)
  have fixed: "?fixed < BOARD_SIZE" using anc by (simp add: pos_of_def)
  have fit: "?start + word_len \<le> BOARD_SIZE" and le: "pos \<le> pos_of horizontal ar ac"
    using rng by (auto simp: pos_of_def split: if_splits)
  have lay': "lay_word b (span_cells horizontal ?fixed ?start perm word_len) = Some tiles"
    using lay by (simp add: anchor_span_cells)
  have letters: "\<forall>k<word_len. perm ! k \<noteq> []"
    using permutation_letters(2)[OF perm wr] .
  show ?thesis
  proof (cases "h = horizontal")
    case True
    have "get_word_at (place_tiles b tiles) ar ac horizontal
         = concat (map (line_of (place_tiles b tiles) horizontal r c) [i..<j + 1])"
      using run tile le pos unfolding tp True
      by (intro main_run_is_anchor_word[OF wb fixed fit lay' letters]) auto
    then show ?thesis using main by (simp add: tp True)
  next
    case False
    then have h: "h = (\<not> horizontal)" by auto
    show ?thesis
      using cross_run_valid[OF val, of r c l i j] tile run lt unfolding tp h by simp
  qed
qed

lemma lay_word_empty:
  "\<forall>t\<in>set word_cells. cell b (fst t) (fst (snd t)) = [] \<Longrightarrow> lay_word b word_cells = Some word_cells"
  by (induction b word_cells rule: lay_word.induct) auto

lemma coords_span_cells:
  "(r, c) \<in> set (map (\<lambda>(r, c, l). (r, c)) (span_cells horizontal fixed start perm len)) \<longleftrightarrow>
     (\<exists>k<len. pos_of (\<not> horizontal) r c = fixed \<and> pos_of horizontal r c = start + k)"
  by (auto simp: span_cells_def pos_of_def)

lemma run_is_segment:
  assumes run: "maximal_run line i j" and c: "i \<le> c" "c \<le> j"
    and filled: "\<forall>k. s \<le> k \<and> k \<le> e \<longrightarrow> line k \<noteq> []" and sc: "s \<le> c" "c \<le> e"
    and e: "e < BOARD_SIZE"
    and outside: "\<forall>k<BOARD_SIZE. k < s \<or> e < k \<longrightarrow> line k = []"
  shows "i = s \<and> j = e"
proof -
  have cover: "i \<le> s" "e \<le> j"
    using run_covers_filled_span[OF run c filled sc e] by simp_all
  have j: "j < BOARD_SIZE" using run by (simp add: maximal_run_def)
  have i: "i < BOARD_SIZE" using j c by simp
  have ne: "line i \<noteq> []" "line j \<noteq> []"
    using maximal_run_filled[OF run] c by simp_all
  have "\<not> i < s"
  proof
    assume "i < s"
    then have "line i = []" using outside i by simp
    then show False using ne by simp
  qed
  moreover have "\<not> e < j"
  proof
    assume "e < j"
    then have "line j = []" using outside j by simp
    then show False using ne by simp
  qed
  ultimately show ?thesis using cover by simp
qed

lemma first_move_sound:
  assumes wb: "wf_board b" and wr: "wf_tiles rack" and be: "board_empty b"
    and m: "m \<in> set (generate_first_move D b rack)"
    and tile: "(r, c, l) \<in> set (tiles_placed m)"
    and run: "maximal_run (line_of (place_tiles b (tiles_placed m)) h r c) i j"
      "i \<le> pos_of h r c" "pos_of h r c \<le> j" and lt: "i < j"
  shows "is_valid_word D (concat (map (line_of (place_tiles b (tiles_placed m)) h r c) [i..<j + 1]))"
proof -
  from m obtain len perm where perm: "perm \<in> set (permutations rack len)"
    and valid: "is_valid_word D (concat perm)"
    and mp: "m \<in> set (first_move_placements b perm len)"
    unfolding in_generate_first_move by blast
  from mp obtain start horizontal where fit: "start + len \<le> BOARD_SIZE"
    and tp: "tiles_placed m = span_cells horizontal 7 start perm len"
    unfolding in_first_move_placements
    by (auto simp: Place_def span_cells_def BOARD_SIZE_def intro: that[of _ True] that[of _ False])
  let ?span = "span_cells horizontal 7 start perm len"
  let ?b = "place_tiles b ?span"
  have lp: "length perm = len" and letters: "\<forall>k<len. perm ! k \<noteq> []"
    using permutation_letters[OF perm wr] by simp_all
  have empty: "cell b r' c' = []" if "r' < BOARD_SIZE" "c' < BOARD_SIZE" for r' c'
    using be that by (auto simp: board_empty_def list_all_iff)
  have seven: "(7::nat) < BOARD_SIZE" by (simp add: BOARD_SIZE_def)
  have "\<forall>t\<in>set ?span. cell b (fst t) (fst (snd t)) = []"
    using fit by (auto simp: span_cells_def BOARD_SIZE_def intro!: empty)
  then have lay: "lay_word b ?span = Some ?span" by (rule lay_word_empty)
  from tile obtain k where k: "k < len"
    and rc: "pos_of (\<not> horizontal) r c = 7" "pos_of horizontal r c = start + k"
    unfolding tp in_span_cells by blast
  have out: "cell ?b r' c' = []"
    if "r' < BOARD_SIZE" "c' < BOARD_SIZE"
      "\<not> (\<exists>k<len. pos_of (\<not> horizontal) r' c' = 7 \<and> pos_of horizontal r' c' = start + k)"
    for r' c'
  proof -
    have "(r', c') \<notin> set (map (\<lambda>(r, c, l). (r, c)) ?span)"
      using that(3) unfolding coords_span_cells by simp
    then have "cell ?b r' c' = cell b r' c'" by (rule cell_place_tiles_other)
    then show ?thesis using empty[OF that(1,2)] by simp
  qed
  have rcb: "r < BOARD_SIZE" "c < BOARD_SIZE"
    using rc k fit seven by (auto simp: pos_of_def split: if_splits)
  show ?thesis
  proof (cases "h = horizontal")
    case True
    let ?line = "line_of ?b horizontal r c"
    have at: "?line (start + q) = perm ! q" if "q < len" for q
      using laid_span_line[OF wb seven fit lay rc(1) that] .
    have filled: "\<forall>p. start \<le> p \<and> p \<le> start + len - 1 \<longrightarrow> ?line p \<noteq> []"
    proof (intro allI impI)
      fix p assume p: "start \<le> p \<and> p \<le> start + len - 1"
      then have "p - start < len" "p = start + (p - start)" using k by auto
      then show "?line p \<noteq> []"
        using at[of "p - start"] letters by simp
    qed
    have outside: "\<forall>p<BOARD_SIZE. p < start \<or> start + len - 1 < p \<longrightarrow> ?line p = []"
    proof (intro allI impI)
      fix p assume p: "p < BOARD_SIZE" "p < start \<or> start + len - 1 < p"
      have nq: "\<not> (\<exists>q<len. p = start + q)" using p(2) by auto
      define r' c' where "r' = (if horizontal then r else p)" and "c' = (if horizontal then p else c)"
      have "cell ?b r' c' = []"
        using p(1) rcb rc(1) nq by (intro out) (auto simp: r'_def c'_def pos_of_def split: if_splits)
      then show "?line p = []"
        by (cases horizontal) (simp_all add: line_of_pos r'_def c'_def)
    qed
    have "i = start \<and> j = start + len - 1"
      using run rc(2) k fit unfolding tp True
      by (intro run_is_segment[OF _ _ _ filled _ _ _ outside]) auto
    then have ij: "[i..<j + 1] = [start..<start + len]" using k by simp
    have "map ?line [start..<start + len] = perm"
      using lp at by (auto intro!: nth_equalityI)
    then have "concat (map ?line [i..<j + 1]) = concat perm"
      unfolding ij by simp
    then show ?thesis
      using valid unfolding tp True by simp
  next
    case False
    then have h: "h = (\<not> horizontal)" by auto
    let ?line = "line_of ?b (\<not> horizontal) r c"
    have p7: "pos_of (\<not> horizontal) r c = 7" by (rule rc(1))
    have nb: "(0 < (7::nat) \<and> ?line (7 - 1) \<noteq> []) \<or> (7 + 1 < BOARD_SIZE \<and> ?line (7 + 1) \<noteq> [])"
      using run_has_neighbour[of ?line i j 7] run lt unfolding tp h p7 by simp
    have off: "?line q = []" if "q < BOARD_SIZE" "q \<noteq> 7" for q
    proof -
      define r' c' where "r' = (if horizontal then q else r)" and "c' = (if horizontal then c else q)"
      have "cell ?b r' c' = []"
        using that rcb by (intro out) (auto simp: r'_def c'_def pos_of_def split: if_splits)
      then show ?thesis
        by (cases horizontal) (simp_all add: line_of_pos r'_def c'_def)
    qed
    have "?line (7 - 1) = []" "?line (7 + 1) = []"
      by (rule off; simp add: BOARD_SIZE_def)+
    then show ?thesis using nb by simp
  qed
qed

lemma wf_single_tile_state: "wf_state single_tile_state"
  by code_simp

text \<open>
  Claim C4. For a well-formed state and a Place move that \<^verbatim>\<open>get_legal_moves\<close> returns
  for its current player, on the board that results from applying the move, every
  maximal run of more than one tile, horizontal or vertical, that contains a newly placed
  tile spells a word of the lexicon.
\<close>

theorem generator_sound:
  assumes "wf_state s" and "m \<in> set (get_legal_moves D s (current_player s))"
    and "\<not> is_pass m" and "(r, c, l) \<in> set (tiles_placed m)"
    and "maximal_run (line_of (board (apply_move rnd s m)) horizontal r c) i j"
    and "i \<le> pos_of horizontal r c" and "pos_of horizontal r c \<le> j" and "i < j"
  shows "is_valid_word D
           (concat (map (line_of (board (apply_move rnd s m)) horizontal r c) [i..<j + 1]))"
proof -
  let ?rack = "the (racks s (current_player s))"
  have bd: "board (apply_move rnd s m) = place_tiles (board s) (tiles_placed m)"
    using assms(3) by (simp add: board_apply_move)
  have wb: "wf_board (board s)" using assms(1) by (simp add: wf_state_def)
  have wr: "wf_tiles ?rack"
    using assms(1) by (auto simp: wf_state_def split: option.splits)
  have "m \<noteq> Pass" using assms(3) by (auto simp: Pass_def)
  then consider (first) "board_empty (board s)" "m \<in> set (generate_first_move D (board s) ?rack)"
    | (connected) "m \<in> set (generate_connected_moves D (board s) ?rack)"
    using assms(2) by (auto simp: get_legal_moves_def Let_def split: if_splits)
  then show ?thesis
  proof cases
    case first
    show ?thesis
      using first_move_sound[OF wb wr first assms(4)] assms(5-8) unfolding bd by simp
  next
    case connected
    show ?thesis
      using connected_move_sound[OF wb wr connected assms(4)] assms(5-8) unfolding bd by simp
  qed
qed

theorem generator_sound_witness:
  "wf_state single_tile_state
   \<and> Place [(8, 7, ''S'')] 4
       \<in> set (get_legal_moves {''AT'', ''ATS''} single_tile_state (current_player single_tile_state))
   \<and> maximal_run (line_of (board (apply_move (\<lambda>k. 0) single_tile_state (Place [(8, 7, ''S'')] 4)))
        False 8 7) 6 8
   \<and> concat (map (line_of (board (apply_move (\<lambda>k. 0) single_tile_state (Place [(8, 7, ''S'')] 4)))
        False 8 7) [6..<8 + 1]) = ''ATS''
   \<and> is_valid_word {''AT'', ''ATS''}
        (concat (map (line_of (board (apply_move (\<lambda>k. 0) single_tile_state
           (Place [(8, 7, ''S'')] 4))) False 8 7) [6..<8 + 1]))"
proof -
  let ?m = "Place [(8, 7, ''S'')] 4"
  let ?b = "board (apply_move (\<lambda>k. 0) single_tile_state ?m)"
  have legal: "?m \<in> set (get_legal_moves {''AT'', ''ATS''} single_tile_state
                  (current_player single_tile_state))"
    by code_simp
  have run: "maximal_run (line_of ?b False 8 7) 6 8"
    by code_simp
  have word: "concat (map (line_of ?b False 8 7) [6..<8 + 1]) = ''ATS''"
    by code_simp
  have "is_valid_word {''AT'', ''ATS''} (concat (map (line_of ?b False 8 7) [6..<8 + 1]))"
    using generator_sound[OF wf_single_tile_state legal _ _ run, of "''S''"]
    by (simp add: Place_def pos_of_def)
  then show ?thesis
    using wf_single_tile_state legal run word by simp
qed

section \<open>Adversarial search\<close>

lemma MInf_least [simp]: "MInf \<le> x"
  by simp

lemma PInf_greatest [simp]: "x \<le> PInf"
  by (cases x) auto

lemma max_loop_cong [fundef_cong]:
  assumes "moves = moves'" "val = val'" "alpha = alpha'" "beta = beta'"
    and "\<And>m a b. m \<in> set moves' \<Longrightarrow> child m a b = child' m a b"
  shows "max_loop child moves val alpha beta = max_loop child' moves' val' alpha' beta'"
  using assms(5) unfolding assms(1-4)
  by (induction moves' arbitrary: val' alpha') (simp_all add: Let_def)

lemma min_loop_cong [fundef_cong]:
  assumes "moves = moves'" "val = val'" "alpha = alpha'" "beta = beta'"
    and "\<And>m a b. m \<in> set moves' \<Longrightarrow> child m a b = child' m a b"
  shows "min_loop child moves val alpha beta = min_loop child' moves' val' alpha' beta'"
  using assms(5) unfolding assms(1-4)
  by (induction moves' arbitrary: val' beta') (simp_all add: Let_def)

lemma length_pool_after_draw:
  "length (snd (draw_tiles rnd pool n)) = length pool - min n (length pool)"
proof -
  obtain drawn pool' where d: "draw_tiles rnd pool n = (drawn, pool')"
    by (cases "draw_tiles rnd pool n")
  have "size (mset drawn + mset pool') = size (mset pool)"
    using draw_tiles_mset(1)[OF d] by simp
  then show ?thesis
    using draw_tiles_mset(2)[OF d] by (simp add: d)
qed

lemma legal_move_decreases:
  assumes "\<not> is_terminal s" and "m \<in> set (get_legal_moves D s (current_player s))"
  shows "game_measure (apply_move rnd s m) < game_measure s"
proof -
  have nt: "length (tile_pool s) \<noteq> 0" "passes_in_a_row s < 2"
    using assms(1) by (simp_all add: is_terminal_def)
  from legal_move_cases[OF assms(2)] show ?thesis
  proof
    assume "m = Pass"
    then show ?thesis
      using nt by (simp add: game_measure_def Pass_def tile_pool_apply_move passes_apply_move)
  next
    assume "placeable (board s) (the (racks s (current_player s))) (tiles_placed m)
       \<and> \<not> is_pass m \<and> score m = calculate_score (board s) (tiles_placed m)"
    then have "tiles_placed m \<noteq> []" "\<not> is_pass m" by (simp_all add: placeable_def)
    then have "length (tile_pool (apply_move rnd s m)) < length (tile_pool s)"
      using nt(1) by (simp add: tile_pool_apply_move length_pool_after_draw)
    then show ?thesis
      using nt(2) \<open>\<not> is_pass m\<close> by (simp add: game_measure_def passes_apply_move)
  qed
qed

lemma in_enumerate_move:
  "(i, move) \<in> set (enumerate n moves) \<Longrightarrow> move \<in> set moves"
  by (auto simp: in_set_enumerate_eq)

lemma enumerated_move_decreases:
  assumes "\<not> is_terminal s"
    and "(i, m) \<in> set (enumerate n (get_legal_moves D s (current_player s)))"
  shows "game_measure (apply_move rnd s m) < game_measure s"
  using legal_move_decreases[OF assms(1) in_enumerate_move[OF assms(2)]] .

text \<open>
  \<^verbatim>\<open>_minimax_value\<close>. Every call of \<^verbatim>\<open>apply_move\<close> draws afresh, so the same move of
  the same state can lead to different successors, and the list of legal moves can hold
  one move several times. A node of the game tree is therefore named by its position
  \<open>pos\<close>, the list of the indices of the moves taken from the root, and \<open>draws pos\<close> is
  the random source of the call of \<^verbatim>\<open>apply_move\<close> that produces the node at \<open>pos\<close>: a
  search makes that call at most once. The loops run over the moves together with their
  indices in the list. The depth is a Python integer; the search stops at depth 0 or at
  a terminal state, and below a non-terminal state the game gets shorter with every
  legal move.
\<close>

function minimax_value ::
  "string set \<Rightarrow> (nat list \<Rightarrow> nat \<Rightarrow> nat) \<Rightarrow> nat list \<Rightarrow> ScrabbleState \<Rightarrow> int \<Rightarrow> eint \<Rightarrow> eint
   \<Rightarrow> int \<Rightarrow> eint" where
  "minimax_value D draws pos state depth alpha beta maximizing_player_id =
     (if depth = 0 \<or> is_terminal state then Fin (get_utility state maximizing_player_id)
      else
        (let current_player_to_move = current_player state;
             is_max_player_turn = (current_player_to_move = maximizing_player_id);
             moves = get_legal_moves D state current_player_to_move
         in if is_max_player_turn then
              max_loop (\<lambda>im a b.
                  minimax_value D draws (pos @ [fst im])
                    (apply_move (draws (pos @ [fst im])) state (snd im))
                    (depth - 1) a b maximizing_player_id)
                (enumerate 0 moves) MInf alpha beta
            else
              min_loop (\<lambda>im a b.
                  minimax_value D draws (pos @ [fst im])
                    (apply_move (draws (pos @ [fst im])) state (snd im))
                    (depth - 1) a b maximizing_player_id)
                (enumerate 0 moves) PInf alpha beta))"
  by pat_completeness auto
termination
  by (relation "measure (\<lambda>(D, draws, pos, state, depth, alpha, beta, mp). game_measure state)")
    (auto intro: enumerated_move_decreases)

declare minimax_value.simps [simp del]

text \<open>
  \<^verbatim>\<open>find_best_move\<close> of \<^verbatim>\<open>AlphaBetaMinimax\<close>: \<open>search_root\<close> is the loop over the
  moves at the root, with the best value and the best move it ends with (\<open>None\<close> is
  Python's \<^verbatim>\<open>None\<close>); the method returns the move, or a Pass when there is no move.
  The root is the position \<open>[]\<close>; the loop runs over the moves with their indices, and
  the best move is kept with its index, which is dropped at the end.
  The counter \<^verbatim>\<open>nodes_explored\<close> and the timing are only printed and are left out.
\<close>

definition search_root ::
  "string set \<Rightarrow> (nat list \<Rightarrow> nat \<Rightarrow> nat) \<Rightarrow> int \<Rightarrow> ScrabbleState \<Rightarrow> eint \<times> Move option"
  where
  "search_root D draws max_depth state =
     (let current_player = current_player state;
          moves = get_legal_moves D state current_player;
          (best_value, best_move) =
             root_loop (\<lambda>im a b.
                 minimax_value D draws [fst im] (apply_move (draws [fst im]) state (snd im))
                   (max_depth - 1) a b current_player)
               (enumerate 0 moves) MInf None MInf PInf
      in (best_value, map_option snd best_move))"

definition find_best_move ::
  "string set \<Rightarrow> (nat list \<Rightarrow> nat \<Rightarrow> nat) \<Rightarrow> int \<Rightarrow> ScrabbleState \<Rightarrow> Move option"
  where
  "find_best_move D draws max_depth state =
     (if get_legal_moves D state (current_player state) = [] then Some Pass
      else snd (search_root D draws max_depth state))"

text \<open>
  The reference of the comparison, following the specification: the depth-limited
  minimax value of the same tree without pruning, the greatest value at the root, and
  the first move that attains it. The tree is the same: the node at a position is
  produced with the same random source \<open>draws pos\<close> as in the search with pruning.
\<close>

function brute_force_value ::
  "string set \<Rightarrow> (nat list \<Rightarrow> nat \<Rightarrow> nat) \<Rightarrow> nat list \<Rightarrow> ScrabbleState \<Rightarrow> int \<Rightarrow> int \<Rightarrow> eint"
  where
  "brute_force_value D draws pos state depth maximizing_player_id =
     (if depth = 0 \<or> is_terminal state then Fin (get_utility state maximizing_player_id)
      else
        (let moves = get_legal_moves D state (current_player state);
             vals = map (\<lambda>im.
                 brute_force_value D draws (pos @ [fst im])
                   (apply_move (draws (pos @ [fst im])) state (snd im))
                   (depth - 1) maximizing_player_id) (enumerate 0 moves)
         in if current_player state = maximizing_player_id then foldl max MInf vals
            else foldl min PInf vals))"
  by pat_completeness auto
termination
  by (relation "measure (\<lambda>(D, draws, pos, state, depth, mp). game_measure state)")
    (auto intro: enumerated_move_decreases)

declare brute_force_value.simps [simp del]

definition brute_force_best ::
  "string set \<Rightarrow> (nat list \<Rightarrow> nat \<Rightarrow> nat) \<Rightarrow> int \<Rightarrow> ScrabbleState \<Rightarrow> eint \<times> Move option"
  where
  "brute_force_best D draws max_depth state =
     (let moves = get_legal_moves D state (current_player state);
          value_of = (\<lambda>im. brute_force_value D draws [fst im]
                         (apply_move (draws [fst im]) state (snd im))
                         (max_depth - 1) (current_player state));
          best_value = foldl max MInf (map value_of (enumerate 0 moves))
      in (best_value,
          map_option snd (find (\<lambda>im. value_of im = best_value) (enumerate 0 moves))))"

definition brute_force_move ::
  "string set \<Rightarrow> (nat list \<Rightarrow> nat \<Rightarrow> nat) \<Rightarrow> int \<Rightarrow> ScrabbleState \<Rightarrow> Move option"
  where
  "brute_force_move D draws max_depth state =
     (if get_legal_moves D state (current_player state) = [] then Some Pass
      else snd (brute_force_best D draws max_depth state))"

subsection \<open>The loops of a node\<close>

lemma max_loop_bounds:
  fixes child :: "'m \<Rightarrow> 'v \<Rightarrow> 'v \<Rightarrow> 'v::linorder"
  assumes "\<And>m a b. m \<in> set moves \<Longrightarrow> a < b \<Longrightarrow> approximates a b (t m) (child m a b)"
    and "val \<le> alpha" and "alpha < beta"
  shows "max_post t moves val alpha beta (max_loop child moves val alpha beta)"
  using assms
proof (induction moves arbitrary: val alpha)
  case Nil
  then show ?case by (auto simp: max_post_def)
next
  case (Cons m moves)
  define c where "c = child m alpha beta"
  define v where "v = max val c"
  define a where "a = max alpha v"
  define r where "r = max_loop child moves v a beta"
  have ap: "approximates alpha beta (t m) c"
    unfolding c_def using Cons.prems(1)[of m alpha beta] Cons.prems(3) by simp
  have step: "max_loop child (m # moves) val alpha beta = (if beta \<le> a then v else r)"
    by (simp add: Let_def c_def v_def a_def r_def)
  have va: "val \<le> v" "c \<le> v" "v \<le> a" "alpha \<le> a"
    by (simp_all add: v_def a_def)
  show ?case
  proof (cases "beta \<le> a")
    case True
    have "beta \<le> c"
      using True Cons.prems(2,3) by (auto simp: v_def a_def max_def split: if_splits)
    then have "c \<le> t m" "v = c"
      using ap Cons.prems(2,3) by (auto simp: approximates_def v_def max_def)
    then show ?thesis
      unfolding step max_post_def using True Cons.prems(2,3) \<open>beta \<le> c\<close> by auto
  next
    case False
    have post: "max_post t moves v a beta r"
      unfolding r_def
    proof (rule Cons.IH)
      show "approximates x y (t m') (child m' x y)" if "m' \<in> set moves" "x < y" for m' x y
        using Cons.prems(1)[of m' x y] that by simp
      show "v \<le> a" by (rule va)
      show "a < beta" using False by (simp only: not_le)
    qed
    then have IH: "v \<le> r"
      "r \<le> a \<longrightarrow> (\<forall>m\<in>set moves. t m \<le> r)"
      "a < r \<and> r < beta \<longrightarrow> (\<forall>m\<in>set moves. t m \<le> r) \<and> (\<exists>m\<in>set moves. t m = r)"
      "beta \<le> r \<longrightarrow> (\<exists>m\<in>set moves. r \<le> t m)"
      unfolding max_post_def by blast+
    have cb: "c < beta" using False va by auto
    have 1: "val \<le> r" using IH(1) va by auto
    have c_le: "c \<le> r" using IH(1) va by auto
    have 2: "\<forall>m'\<in>set (m # moves). t m' \<le> r" if "r \<le> alpha"
    proof -
      have "c \<le> alpha" using c_le that by simp
      then have "t m \<le> c" using ap by (simp add: approximates_def)
      then have "t m \<le> r" using c_le by simp
      moreover have "r \<le> a" using that va by auto
      ultimately show ?thesis using IH(2) by simp
    qed
    have 3: "(\<forall>m'\<in>set (m # moves). t m' \<le> r) \<and> (\<exists>m'\<in>set (m # moves). t m' = r)"
      if "alpha < r" "r < beta"
    proof (cases "r \<le> a")
      case True
      then have rest: "\<forall>m\<in>set moves. t m \<le> r" using IH(2) by simp
      have "a = c"
        using True that(1) Cons.prems(2) c_le by (auto simp: a_def v_def max_def split: if_splits)
      then have "r = c" using True c_le by simp
      then have "alpha < c" using that(1) by simp
      then have "c = t m" using ap cb by (simp add: approximates_def)
      then show ?thesis using rest \<open>r = c\<close> by simp
    next
      case False
      then have gt: "a < r" by simp
      then have rest: "(\<forall>m\<in>set moves. t m \<le> r) \<and> (\<exists>m\<in>set moves. t m = r)"
        using IH(3) that(2) by simp
      have "c < r" using gt va by auto
      moreover have "t m \<le> c"
      proof (cases "c \<le> alpha")
        case True
        then show ?thesis using ap by (simp add: approximates_def)
      next
        case False
        then show ?thesis using ap cb by (simp add: approximates_def)
      qed
      ultimately have "t m \<le> r" by simp
      then show ?thesis using rest by auto
    qed
    have 4: "\<exists>m'\<in>set (m # moves). r \<le> t m'" if "beta \<le> r"
      using IH(4) that by auto
    show ?thesis
      unfolding step max_post_def using False 1 2 3 4 by simp
  qed
qed

lemma min_loop_bounds:
  fixes child :: "'m \<Rightarrow> 'v \<Rightarrow> 'v \<Rightarrow> 'v::linorder"
  assumes "\<And>m a b. m \<in> set moves \<Longrightarrow> a < b \<Longrightarrow> approximates a b (t m) (child m a b)"
    and "beta \<le> val" and "alpha < beta"
  shows "min_post t moves val alpha beta (min_loop child moves val alpha beta)"
  using assms
proof (induction moves arbitrary: val beta)
  case Nil
  then show ?case by (auto simp: min_post_def)
next
  case (Cons m moves)
  define c where "c = child m alpha beta"
  define v where "v = min val c"
  define b where "b = min beta v"
  define r where "r = min_loop child moves v alpha b"
  have ap: "approximates alpha beta (t m) c"
    unfolding c_def using Cons.prems(1)[of m alpha beta] Cons.prems(3) by simp
  have step: "min_loop child (m # moves) val alpha beta = (if b \<le> alpha then v else r)"
    by (simp add: Let_def c_def v_def b_def r_def)
  have vb: "v \<le> val" "v \<le> c" "b \<le> v" "b \<le> beta"
    by (auto simp: v_def b_def min_def)
  show ?case
  proof (cases "b \<le> alpha")
    case True
    have "c \<le> alpha"
      using True Cons.prems(2,3) by (auto simp: v_def b_def min_def split: if_splits)
    then have "t m \<le> c" "v = c"
      using ap Cons.prems(2,3) by (auto simp: approximates_def v_def min_def)
    then show ?thesis
      unfolding step min_post_def using True Cons.prems(2,3) \<open>c \<le> alpha\<close> by auto
  next
    case False
    have post: "min_post t moves v alpha b r"
      unfolding r_def
    proof (rule Cons.IH)
      show "approximates x y (t m') (child m' x y)" if "m' \<in> set moves" "x < y" for m' x y
        using Cons.prems(1)[of m' x y] that by simp
      show "b \<le> v" by (rule vb)
      show "alpha < b" using False by (simp only: not_le)
    qed
    then have IH: "r \<le> v"
      "b \<le> r \<longrightarrow> (\<forall>m\<in>set moves. r \<le> t m)"
      "alpha < r \<and> r < b \<longrightarrow> (\<forall>m\<in>set moves. r \<le> t m) \<and> (\<exists>m\<in>set moves. t m = r)"
      "r \<le> alpha \<longrightarrow> (\<exists>m\<in>set moves. t m \<le> r)"
      unfolding min_post_def by blast+
    have ca: "alpha < c" using False vb by auto
    have 1: "r \<le> val" using IH(1) vb by auto
    have r_le: "r \<le> c" using IH(1) vb by auto
    have 2: "\<forall>m'\<in>set (m # moves). r \<le> t m'" if "beta \<le> r"
    proof -
      have "beta \<le> c" using r_le that by simp
      then have "c \<le> t m" using ap by (simp add: approximates_def)
      then have "r \<le> t m" using r_le by simp
      moreover have "b \<le> r" using that vb by auto
      ultimately show ?thesis using IH(2) by simp
    qed
    have 3: "(\<forall>m'\<in>set (m # moves). r \<le> t m') \<and> (\<exists>m'\<in>set (m # moves). t m' = r)"
      if "alpha < r" "r < beta"
    proof (cases "b \<le> r")
      case True
      then have rest: "\<forall>m\<in>set moves. r \<le> t m" using IH(2) by simp
      have "b = c"
        using True that(2) Cons.prems(2) r_le by (auto simp: b_def v_def min_def split: if_splits)
      then have "r = c" using True r_le by simp
      then have "c < beta" using that(2) by simp
      then have "c = t m" using ap ca by (simp add: approximates_def)
      then show ?thesis using rest \<open>r = c\<close> by simp
    next
      case False
      then have lt: "r < b" by simp
      then have rest: "(\<forall>m\<in>set moves. r \<le> t m) \<and> (\<exists>m\<in>set moves. t m = r)"
        using IH(3) that(1) by simp
      have "r < c" using lt vb by auto
      moreover have "c \<le> t m"
      proof (cases "beta \<le> c")
        case True
        then show ?thesis using ap by (simp add: approximates_def)
      next
        case False
        then show ?thesis using ap ca by (simp add: approximates_def)
      qed
      ultimately have "r \<le> t m" by simp
      then show ?thesis using rest by auto
    qed
    have 4: "\<exists>m'\<in>set (m # moves). t m' \<le> r" if "r \<le> alpha"
      using IH(4) that by auto
    show ?thesis
      unfolding step min_post_def using False 1 2 3 4 by simp
  qed
qed

lemma foldl_max_ge_init:
  fixes v0 :: "'v::linorder"
  shows "v0 \<le> foldl max v0 xs"
proof (induction xs arbitrary: v0)
  case Nil
  show ?case by simp
next
  case (Cons x xs)
  have "v0 \<le> max v0 x" by simp
  also have "max v0 x \<le> foldl max (max v0 x) xs" by (rule Cons.IH)
  finally show ?case by simp
qed

lemma foldl_max_ge_elem:
  fixes v0 :: "'v::linorder"
  shows "x \<in> set xs \<Longrightarrow> x \<le> foldl max v0 xs"
proof (induction xs arbitrary: v0)
  case Nil
  then show ?case by simp
next
  case (Cons y ys)
  show ?case
  proof (cases "x = y")
    case True
    have "y \<le> max v0 y" by simp
    also have "max v0 y \<le> foldl max (max v0 y) ys" by (rule foldl_max_ge_init)
    finally show ?thesis by (simp add: True)
  next
    case False
    then have "x \<in> set ys" using Cons.prems by simp
    then show ?thesis using Cons.IH by simp
  qed
qed

lemma foldl_max_mem:
  fixes v0 :: "'v::linorder"
  shows "foldl max v0 xs = v0 \<or> foldl max v0 xs \<in> set xs"
proof (induction xs arbitrary: v0)
  case Nil
  show ?case by simp
next
  case (Cons x xs)
  have "max v0 x = v0 \<or> max v0 x = x" by (simp add: max_def)
  then show ?case using Cons.IH[of "max v0 x"] by auto
qed

lemma foldl_min_le_init:
  fixes v0 :: "'v::linorder"
  shows "foldl min v0 xs \<le> v0"
proof (induction xs arbitrary: v0)
  case Nil
  show ?case by simp
next
  case (Cons x xs)
  have "foldl min (min v0 x) xs \<le> min v0 x" by (rule Cons.IH)
  also have "min v0 x \<le> v0" by simp
  finally show ?case by simp
qed

lemma foldl_min_le_elem:
  fixes v0 :: "'v::linorder"
  shows "x \<in> set xs \<Longrightarrow> foldl min v0 xs \<le> x"
proof (induction xs arbitrary: v0)
  case Nil
  then show ?case by simp
next
  case (Cons y ys)
  show ?case
  proof (cases "x = y")
    case True
    have "foldl min (min v0 y) ys \<le> min v0 y" by (rule foldl_min_le_init)
    also have "min v0 y \<le> y" by simp
    finally show ?thesis by (simp add: True)
  next
    case False
    then have "x \<in> set ys" using Cons.prems by simp
    then show ?thesis using Cons.IH by simp
  qed
qed

lemma foldl_min_mem:
  fixes v0 :: "'v::linorder"
  shows "foldl min v0 xs = v0 \<or> foldl min v0 xs \<in> set xs"
proof (induction xs arbitrary: v0)
  case Nil
  show ?case by simp
next
  case (Cons x xs)
  have "min v0 x = v0 \<or> min v0 x = x" by (simp add: min_def)
  then show ?case using Cons.IH[of "min v0 x"] by auto
qed

subsection \<open>Pruning keeps the value within the window\<close>

lemma max_post_approximates:
  assumes "max_post t moves MInf alpha beta r"
  shows "approximates alpha beta (foldl max MInf (map t moves)) r"
proof -
  let ?V = "foldl max MInf (map t moves)"
  have up: "?V \<le> r" if "\<forall>m\<in>set moves. t m \<le> r"
  proof -
    have "?V = MInf \<or> ?V \<in> set (map t moves)" by (rule foldl_max_mem)
    then show ?thesis using that by auto
  qed
  have lo: "t m \<le> ?V" if "m \<in> set moves" for m
    using foldl_max_ge_elem[of "t m" "map t moves" MInf] that by simp
  have 1: "?V \<le> r" if "r \<le> alpha"
    using assms that up by (simp add: max_post_def)
  have 2: "r = ?V" if "alpha < r" "r < beta"
  proof -
    have a: "\<forall>m\<in>set moves. t m \<le> r" and "\<exists>m\<in>set moves. t m = r"
      using assms that by (simp_all add: max_post_def)
    then obtain m where "m \<in> set moves" "t m = r" by blast
    then have "r \<le> ?V" using lo by auto
    then show ?thesis using up[OF a] by simp
  qed
  have 3: "r \<le> ?V" if "beta \<le> r"
  proof -
    have "\<exists>m\<in>set moves. r \<le> t m"
      using assms that unfolding max_post_def by blast
    then obtain m where "m \<in> set moves" "r \<le> t m" by blast
    then show ?thesis using lo[of m] by simp
  qed
  show ?thesis
    unfolding approximates_def using 1 2 3 by blast
qed

lemma min_post_approximates:
  assumes "min_post t moves PInf alpha beta r"
  shows "approximates alpha beta (foldl min PInf (map t moves)) r"
proof -
  let ?V = "foldl min PInf (map t moves)"
  have lo: "r \<le> ?V" if "\<forall>m\<in>set moves. r \<le> t m"
  proof -
    have "?V = PInf \<or> ?V \<in> set (map t moves)" by (rule foldl_min_mem)
    then show ?thesis using that by auto
  qed
  have up: "?V \<le> t m" if "m \<in> set moves" for m
    using foldl_min_le_elem[of "t m" "map t moves" PInf] that by simp
  have 1: "r \<le> ?V" if "beta \<le> r"
    using assms that lo by (simp add: min_post_def)
  have 2: "r = ?V" if "alpha < r" "r < beta"
  proof -
    have a: "\<forall>m\<in>set moves. r \<le> t m" and "\<exists>m\<in>set moves. t m = r"
      using assms that by (simp_all add: min_post_def)
    then obtain m where "m \<in> set moves" "t m = r" by blast
    then have "?V \<le> r" using up by auto
    then show ?thesis using lo[OF a] by simp
  qed
  have 3: "?V \<le> r" if "r \<le> alpha"
  proof -
    have "\<exists>m\<in>set moves. t m \<le> r"
      using assms that unfolding min_post_def by blast
    then obtain m where "m \<in> set moves" "t m \<le> r" by blast
    then show ?thesis using up[of m] by simp
  qed
  show ?thesis
    unfolding approximates_def using 1 2 3 by blast
qed

lemma minimax_approximates:
  "alpha < beta \<Longrightarrow>
   approximates alpha beta (brute_force_value D draws pos state depth mp)
     (minimax_value D draws pos state depth alpha beta mp)"
proof (induction D draws pos state depth alpha beta mp rule: minimax_value.induct)
  case (1 D draws pos state depth alpha beta mp)
  show ?case
  proof (cases "depth = 0 \<or> is_terminal state")
    case True
    then show ?thesis
      by (simp add: minimax_value.simps brute_force_value.simps approximates_def)
  next
    case False
    let ?moves = "enumerate 0 (get_legal_moves D state (current_player state))"
    let ?child = "\<lambda>im a b. minimax_value D draws (pos @ [fst im])
                    (apply_move (draws (pos @ [fst im])) state (snd im)) (depth - 1) a b mp"
    let ?t = "\<lambda>im. brute_force_value D draws (pos @ [fst im])
                    (apply_move (draws (pos @ [fst im])) state (snd im)) (depth - 1) mp"
    show ?thesis
    proof (cases "current_player state = mp")
      case True
      have IH: "approximates a b (?t m) (?child m a b)" if "m \<in> set ?moves" "a < b" for m a b
        using "1.IH"(1)[OF False refl refl refl _ that(1)] True that(2) by simp
      have "max_post ?t ?moves MInf alpha beta (max_loop ?child ?moves MInf alpha beta)"
        using IH "1.prems" by (intro max_loop_bounds) auto
      from max_post_approximates[OF this] show ?thesis
        using False True
        by (simp add: minimax_value.simps[of D draws pos state]
            brute_force_value.simps[of D draws pos state])
    next
      case no: False
      have IH: "approximates a b (?t m) (?child m a b)" if "m \<in> set ?moves" "a < b" for m a b
        using "1.IH"(2)[OF False refl refl refl _ that(1)] no that(2) by simp
      have "min_post ?t ?moves PInf alpha beta (min_loop ?child ?moves PInf alpha beta)"
        using IH "1.prems" by (intro min_loop_bounds) auto
      from min_post_approximates[OF this] show ?thesis
        using False no
        by (simp add: minimax_value.simps[of D draws pos state]
            brute_force_value.simps[of D draws pos state])
    qed
  qed
qed

subsection \<open>The root\<close>

lemma legal_moves_nonempty:
  "\<not> is_terminal s \<Longrightarrow> get_legal_moves D s p \<noteq> []"
  by (simp add: get_legal_moves_def Let_def)

lemma brute_force_value_finite:
  "\<exists>x. brute_force_value D draws pos state depth mp = Fin x"
proof (induction D draws pos state depth mp rule: brute_force_value.induct)
  case (1 D draws pos state depth mp)
  show ?case
  proof (cases "depth = 0 \<or> is_terminal state")
    case True
    then show ?thesis by (simp add: brute_force_value.simps)
  next
    case False
    let ?moves = "enumerate 0 (get_legal_moves D state (current_player state))"
    let ?vals = "map (\<lambda>im. brute_force_value D draws (pos @ [fst im])
                    (apply_move (draws (pos @ [fst im])) state (snd im)) (depth - 1) mp) ?moves"
    have fin: "\<forall>v\<in>set ?vals. \<exists>x. v = Fin x"
      using "1.IH"[OF False refl] by auto
    have ne: "?vals \<noteq> []"
      using False legal_moves_nonempty[of state D "current_player state"]
      by (simp add: enumerate_eq_zip)
    then obtain v0 where v0: "v0 \<in> set ?vals" by (cases ?vals) auto
    then obtain x0 where x0: "v0 = Fin x0" using fin by blast
    have "foldl max MInf ?vals \<noteq> MInf"
      using foldl_max_ge_elem[OF v0, of MInf] x0 by auto
    then have mx: "\<exists>x. foldl max MInf ?vals = Fin x"
      using foldl_max_mem[of MInf ?vals] fin by blast
    have "foldl min PInf ?vals \<noteq> PInf"
      using foldl_min_le_elem[OF v0, of PInf] x0 by auto
    then have mn: "\<exists>x. foldl min PInf ?vals = Fin x"
      using foldl_min_mem[of PInf ?vals] fin by blast
    show ?thesis
    proof (cases "current_player state = mp")
      case True
      then show ?thesis
        using False mx by (simp add: brute_force_value.simps[of D draws pos state] Let_def)
    next
      case no: False
      then show ?thesis
        using False mn by (simp add: brute_force_value.simps[of D draws pos state] Let_def)
    qed
  qed
qed

lemma root_loop_exact:
  fixes child :: "'m \<Rightarrow> 'v \<Rightarrow> 'v \<Rightarrow> 'v::linorder"
  assumes "\<And>m a. m \<in> set moves \<Longrightarrow> a < infty \<Longrightarrow> approximates a infty (t m) (child m a infty)"
    and "\<And>m. m \<in> set moves \<Longrightarrow> t m < infty" and "alpha < infty"
  shows "root_loop child moves alpha bm alpha infty = foldl (keep_first t) (alpha, bm) moves"
  using assms
proof (induction moves arbitrary: alpha bm)
  case Nil
  show ?case by simp
next
  case (Cons m moves)
  define c where "c = child m alpha infty"
  have ap: "approximates alpha infty (t m) c"
    unfolding c_def using Cons.prems(1)[of m alpha] Cons.prems(3) by simp
  have tm: "t m < infty" using Cons.prems(2) by simp
  show ?case
  proof (cases "alpha < c")
    case True
    have "c < infty"
    proof (rule ccontr)
      assume "\<not> c < infty"
      then have "infty \<le> c" by simp
      then have "c \<le> t m" using ap by (simp add: approximates_def)
      then show False using tm \<open>infty \<le> c\<close> by simp
    qed
    then have ct: "c = t m" using ap True by (simp add: approximates_def)
    have "max alpha c = c" using True by (simp add: max.absorb2 less_imp_le)
    then have "root_loop child (m # moves) alpha bm alpha infty = root_loop child moves c (Some m) c infty"
      using True by (simp add: c_def [symmetric] Let_def)
    also have "\<dots> = foldl (keep_first t) (c, Some m) moves"
      using Cons.prems \<open>c < infty\<close> by (intro Cons.IH) auto
    finally have "root_loop child (m # moves) alpha bm alpha infty
        = foldl (keep_first t) (c, Some m) moves" .
    moreover have "keep_first t (alpha, bm) m = (c, Some m)"
      using True by (simp add: keep_first_def ct)
    ultimately show ?thesis by simp
  next
    case False
    then have "t m \<le> c" "c \<le> alpha" using ap by (simp_all add: approximates_def)
    then have nt: "\<not> alpha < t m" by simp
    have "root_loop child (m # moves) alpha bm alpha infty = root_loop child moves alpha bm alpha infty"
      using False by (simp add: c_def [symmetric] Let_def)
    also have "\<dots> = foldl (keep_first t) (alpha, bm) moves"
      using Cons.prems by (intro Cons.IH) auto
    finally have "root_loop child (m # moves) alpha bm alpha infty
        = foldl (keep_first t) (alpha, bm) moves" .
    moreover have "keep_first t (alpha, bm) m = (alpha, bm)"
      using nt by (simp add: keep_first_def)
    ultimately show ?thesis by simp
  qed
qed

lemma keep_first_is_find:
  fixes t :: "'m \<Rightarrow> 'v::linorder"
  shows "foldl (keep_first t) (bv, bm) moves =
     (foldl max bv (map t moves),
      if \<exists>m\<in>set moves. bv < t m then find (\<lambda>m. t m = foldl max bv (map t moves)) moves else bm)"
proof (induction moves arbitrary: bv bm)
  case Nil
  show ?case by simp
next
  case (Cons m moves)
  show ?case
  proof (cases "bv < t m")
    case True
    then have mx: "max bv (t m) = t m" by (simp add: max.absorb2 less_imp_le)
    let ?F = "foldl max (t m) (map t moves)"
    have ge: "t m \<le> ?F" by (rule foldl_max_ge_init)
    have kf: "keep_first t (bv, bm) m = (t m, Some m)"
      using True by (simp add: keep_first_def)
    have step: "foldl (keep_first t) (bv, bm) (m # moves)
        = (?F, if \<exists>m'\<in>set moves. t m < t m' then find (\<lambda>x. t x = ?F) moves else Some m)"
      using Cons.IH[of "t m" "Some m"] by (simp add: kf)
    have fnd: "(if \<exists>m'\<in>set moves. t m < t m' then find (\<lambda>x. t x = ?F) moves else Some m)
        = find (\<lambda>x. t x = ?F) (m # moves)"
    proof (cases "\<exists>m'\<in>set moves. t m < t m'")
      case True
      then obtain m' where "m' \<in> set moves" "t m < t m'" by blast
      then have "t m < ?F" using foldl_max_ge_elem[of "t m'" "map t moves" "t m"] by auto
      then show ?thesis using True by auto
    next
      case False
      have "?F = t m \<or> ?F \<in> set (map t moves)" by (rule foldl_max_mem)
      then have "?F \<le> t m" using False by (auto simp: not_less)
      then have "?F = t m" using ge by simp
      then show ?thesis using False by simp
    qed
    have F_eq: "foldl max bv (map t (m # moves)) = ?F"
      using mx by simp
    have ex: "\<exists>ma\<in>set (m # moves). bv < t ma"
      using True by auto
    show ?thesis
      unfolding step F_eq by (simp only: ex if_True fnd)
  next
    case False
    then have mx: "max bv (t m) = bv" by (simp add: max.absorb1 not_less)
    let ?F = "foldl max bv (map t moves)"
    have kf: "keep_first t (bv, bm) m = (bv, bm)"
      using False by (simp add: keep_first_def)
    have step: "foldl (keep_first t) (bv, bm) (m # moves)
        = (?F, if \<exists>m'\<in>set moves. bv < t m' then find (\<lambda>x. t x = ?F) moves else bm)"
      using Cons.IH[of bv bm] by (simp add: kf)
    have fnd: "find (\<lambda>x. t x = ?F) (m # moves) = find (\<lambda>x. t x = ?F) moves"
      if "\<exists>m'\<in>set moves. bv < t m'"
    proof -
      from that obtain m' where "m' \<in> set moves" "bv < t m'" by blast
      then have "bv < ?F" using foldl_max_ge_elem[of "t m'" "map t moves" bv] by auto
      then have "t m \<noteq> ?F" using False by auto
      then show ?thesis by simp
    qed
    have F_eq: "foldl max bv (map t (m # moves)) = ?F"
      using mx by simp
    have ex: "(\<exists>ma\<in>set (m # moves). bv < t ma) = (\<exists>m'\<in>set moves. bv < t m')"
      using False by auto
    show ?thesis
    proof (cases "\<exists>m'\<in>set moves. bv < t m'")
      case True
      show ?thesis
        unfolding step F_eq ex by (simp only: True if_True fnd[OF True])
    next
      case no: False
      show ?thesis
        unfolding step F_eq ex by (simp only: no if_False)
    qed
  qed
qed

lemma wf_search_state: "wf_state search_state"
  by code_simp

text \<open>
  The tree of the model has what the code can do: in \<open>playout_state\<close> the first and
  the fifth legal move are the same move, and with different draws at their positions
  their successors differ.
\<close>

lemma repeated_move_successors:
  "get_legal_moves {''AA''} playout_state 1 ! 0 = get_legal_moves {''AA''} playout_state 1 ! 4"
  "tile_pool (apply_move ((\<lambda>pos k. if last pos = (4::nat) then 1 else (0::nat)) [0::nat]) playout_state
      (get_legal_moves {''AA''} playout_state 1 ! 0)) = [''G'']"
  "tile_pool (apply_move ((\<lambda>pos k. if last pos = (4::nat) then 1 else (0::nat)) [4]) playout_state
      (get_legal_moves {''AA''} playout_state 1 ! 4)) = [''E'']"
  by code_simp+

text \<open>
  Claim C5. For every well-formed state and every depth limit, the best value at the
  root and the move that \<^verbatim>\<open>find_best_move\<close> selects, keeping the first move on ties,
  are the value and the first maximizing move of the brute-force minimax evaluation of
  the same game tree, to the same depth, without pruning. The game tree is given by the
  random draws of the call of \<^verbatim>\<open>apply_move\<close> at each position, which are arbitrary:
  two occurrences of one move in a list of legal moves, and two visits of one state, may
  have different successors.
\<close>

theorem alpha_beta_equivalence:
  assumes "wf_state state"
  shows "search_root D draws max_depth state = brute_force_best D draws max_depth state
       \<and> find_best_move D draws max_depth state = brute_force_move D draws max_depth state"
proof -
  let ?moves = "enumerate 0 (get_legal_moves D state (current_player state))"
  let ?child = "\<lambda>im a b. minimax_value D draws [fst im]
                    (apply_move (draws [fst im]) state (snd im))
                    (max_depth - 1) a b (current_player state)"
  let ?t = "\<lambda>im. brute_force_value D draws [fst im]
                    (apply_move (draws [fst im]) state (snd im))
                    (max_depth - 1) (current_player state)"
  let ?F = "foldl max MInf (map ?t ?moves)"
  have fin: "MInf < ?t m \<and> ?t m < PInf" for m
  proof -
    obtain x where "?t m = Fin x"
      using brute_force_value_finite[of D draws "[fst m]"
          "apply_move (draws [fst m]) state (snd m)" "max_depth - 1" "current_player state"]
      by blast
    then show ?thesis by (simp add: less_eint_def)
  qed
  have "root_loop ?child ?moves MInf None MInf PInf = foldl (keep_first ?t) (MInf, None) ?moves"
  proof (rule root_loop_exact)
    show "approximates a PInf (?t m) (?child m a PInf)" if "a < PInf" for m a
      using that by (rule minimax_approximates)
    show "?t m < PInf" for m using fin by simp
    show "MInf < PInf" by (simp add: less_eint_def)
  qed
  also have "\<dots> = (?F, if \<exists>m\<in>set ?moves. MInf < ?t m then find (\<lambda>m. ?t m = ?F) ?moves else None)"
    by (rule keep_first_is_find)
  also have "\<dots> = (?F, find (\<lambda>m. ?t m = ?F) ?moves)"
  proof (cases "?moves = []")
    case True
    then show ?thesis by simp
  next
    case False
    then obtain m where "m \<in> set ?moves" by (cases ?moves) auto
    then have "\<exists>m\<in>set ?moves. MInf < ?t m" using fin by blast
    then show ?thesis by simp
  qed
  finally have "search_root D draws max_depth state = brute_force_best D draws max_depth state"
    by (simp add: search_root_def brute_force_best_def Let_def)
  then show ?thesis
    by (simp add: find_best_move_def brute_force_move_def)
qed

text \<open>
  In the position \<open>search_state\<close> at depth 2 both searches choose ATS down column 6,
  with value 0. The pruning is real: below the Pass move, the last of the eleven moves at
  the root, with a window that starts at 3, the search stops at the first reply and
  returns -3, and the exact value is -6.
\<close>

theorem alpha_beta_equivalence_witness:
  "wf_state search_state
   \<and> search_root {''AT'', ''ATS''} (\<lambda>pos k. length pos + k) 2 search_state
       = (Fin 0, Some (Place [(7, 6, ''A''), (8, 6, ''T''), (9, 6, ''S'')] 6))
   \<and> brute_force_best {''AT'', ''ATS''} (\<lambda>pos k. length pos + k) 2 search_state
       = (Fin 0, Some (Place [(7, 6, ''A''), (8, 6, ''T''), (9, 6, ''S'')] 6))
   \<and> find_best_move {''AT'', ''ATS''} (\<lambda>pos k. length pos + k) 2 search_state
       = brute_force_move {''AT'', ''ATS''} (\<lambda>pos k. length pos + k) 2 search_state
   \<and> minimax_value {''AT'', ''ATS''} (\<lambda>pos k. length pos + k) [10]
        (apply_move (\<lambda>k. 1 + k) search_state Pass) 1 (Fin 3) PInf 1 = Fin (- 3)
   \<and> brute_force_value {''AT'', ''ATS''} (\<lambda>pos k. length pos + k) [10]
        (apply_move (\<lambda>k. 1 + k) search_state Pass) 1 1 = Fin (- 6)"
proof -
  have root: "search_root {''AT'', ''ATS''} (\<lambda>pos k. length pos + k) 2 search_state
       = (Fin 0, Some (Place [(7, 6, ''A''), (8, 6, ''T''), (9, 6, ''S'')] 6))"
    by code_simp
  have cut: "minimax_value {''AT'', ''ATS''} (\<lambda>pos k. length pos + k) [10]
        (apply_move (\<lambda>k. 1 + k) search_state Pass) 1 (Fin 3) PInf 1 = Fin (- 3)"
    by code_simp
  have full: "brute_force_value {''AT'', ''ATS''} (\<lambda>pos k. length pos + k) [10]
        (apply_move (\<lambda>k. 1 + k) search_state Pass) 1 1 = Fin (- 6)"
    by code_simp
  show ?thesis
    using alpha_beta_equivalence[OF wf_search_state, of "{''AT'', ''ATS''}"
        "\<lambda>pos k. length pos + k" 2]
      root cut full wf_search_state
    by simp
qed

section \<open>The playouts of the Monte Carlo evaluator\<close>

lemma foldl_playout_step:
  "snd (foldl (playout_step num h rnds calls state move) (tot, trace) js) =
      trace @ concat (map (\<lambda>j. [Applied move (apply_move (rnds j) state move),
                       Evaluated (apply_move (rnds j) state move) (current_player state)]) js)"
  by (induction js arbitrary: tot trace) (simp_all add: playout_step_def Let_def)

lemma snd_run_playouts:
  "snd (run_playouts num h rnds calls state move ppm) = playout_events rnds state move (nat ppm)"
  by (simp add: run_playouts_def foldl_playout_step playout_events_def)

lemma snd_foldl_mc_step:
  "snd (foldl (mc_step num h rnds state ppm) (mv, trace) ims) =
     trace @ concat (map (\<lambda>(i, move). playout_events (rnds i) state move (nat ppm)) ims)"
proof (induction ims arbitrary: mv trace)
  case Nil
  show ?case by simp
next
  case (Cons im ims)
  obtain i move where im: "im = (i, move)" by (cases im)
  obtain tot ev where rp: "run_playouts num h (rnds i) (i * nat ppm) state move ppm = (tot, ev)"
    by (cases "run_playouts num h (rnds i) (i * nat ppm) state move ppm")
  have ev: "ev = playout_events (rnds i) state move (nat ppm)"
    using snd_run_playouts[of num h "rnds i" "i * nat ppm" state move ppm] rp by simp
  have "mc_step num h rnds state ppm (mv, trace) im
      = (dict_set mv move (num_div num tot ppm), trace @ ev)"
    by (simp add: mc_step_def im rp)
  then show ?case
    using Cons.IH[of "dict_set mv move (num_div num tot ppm)" "trace @ ev"]
    by (simp add: im ev)
qed


lemma mc_trace:
  assumes "get_legal_moves D state (current_player state) \<noteq> []"
  shows "snd (mc_find_best_move num h rnds num_playouts D state) =
     concat (map (\<lambda>(i, move). playout_events (rnds i) state move
                    (nat (playouts_per_move num_playouts
                            (length (get_legal_moves D state (current_player state))))))
               (enumerate 0 (get_legal_moves D state (current_player state))))"
proof -
  let ?moves = "get_legal_moves D state (current_player state)"
  let ?ppm = "playouts_per_move num_playouts (length ?moves)"
  obtain mv tr where f:
    "foldl (mc_step num h rnds state ?ppm) ([], []) (enumerate 0 ?moves) = (mv, tr)"
    by (cases "foldl (mc_step num h rnds state ?ppm) ([], []) (enumerate 0 ?moves)")
  have tr: "tr = concat (map (\<lambda>(i, move). playout_events (rnds i) state move (nat ?ppm))
                          (enumerate 0 ?moves))"
    using snd_foldl_mc_step[of num h rnds state ?ppm "[]" "[]" "enumerate 0 ?moves"] f by simp
  have "snd (mc_find_best_move num h rnds num_playouts D state) = tr"
    using assms by (simp add: mc_find_best_move_def Let_def f split: list.split)
  then show ?thesis by (simp add: tr)
qed

lemma apply_pass_no_draw:
  "is_pass move \<Longrightarrow> apply_move rnd state move = apply_move rnd' state move"
  by (simp add: apply_move_def Let_def)

lemma playout_state_facts:
  "wf_state playout_state"
  "current_player playout_state = 1"
  "get_legal_moves {''AA''} playout_state 1 =
     playout_move # tl (get_legal_moves {''AA''} playout_state 1)"
  "length (get_legal_moves {''AA''} playout_state 1) = 9"
  "tile_pool (apply_move (\<lambda>k. 0) playout_state playout_move) = [''G'']"
  "tile_pool (apply_move (\<lambda>k. 1) playout_state playout_move) = [''E'']"
  by code_simp+

lemma playout_state_trace:
  "snd (mc_find_best_move num h (\<lambda>i j k. j) 18 {''AA''} playout_state) =
     [Applied playout_move (apply_move (\<lambda>k. 0) playout_state playout_move),
      Evaluated (apply_move (\<lambda>k. 0) playout_state playout_move) 1,
      Applied playout_move (apply_move (\<lambda>k. 1) playout_state playout_move),
      Evaluated (apply_move (\<lambda>k. 1) playout_state playout_move) 1]
     @ concat (map (\<lambda>(i, move). playout_events (\<lambda>j k. j) playout_state move 2)
                 (enumerate 1 (tl (get_legal_moves {''AA''} playout_state 1))))"
proof -
  let ?moves = "get_legal_moves {''AA''} playout_state 1"
  have ne: "get_legal_moves {''AA''} playout_state (current_player playout_state) \<noteq> []"
    using playout_state_facts(2,4) by auto
  have ppm: "nat (playouts_per_move 18 (length ?moves)) = 2"
    by (simp add: playout_state_facts(4) playouts_per_move_def)
  have en: "enumerate 0 ?moves = (0, playout_move) # enumerate 1 (tl ?moves)"
    by (subst playout_state_facts(3)) simp
  have ev: "playout_events (\<lambda>j k. j) playout_state playout_move 2 =
     [Applied playout_move (apply_move (\<lambda>k. 0) playout_state playout_move),
      Evaluated (apply_move (\<lambda>k. 0) playout_state playout_move) 1,
      Applied playout_move (apply_move (\<lambda>k. 1) playout_state playout_move),
      Evaluated (apply_move (\<lambda>k. 1) playout_state playout_move) 1]"
    by (simp add: playout_events_def playout_state_facts(2) upt_rec numeral_nat)
  show ?thesis
    using mc_trace[OF ne, of num h "\<lambda>i j k. j" 18]
    unfolding playout_state_facts(2) ppm en by (simp add: ev)
qed

text \<open>
  Claim C2, as amended. For every candidate move, \<^verbatim>\<open>find_best_move\<close> applies the move
  once in every playout, that is \<open>playouts_per_move\<close> times, each time with its own random
  draws, and invokes the heuristic once on the successor that the playout has just
  obtained. The successors of one move are the same state when the move is a Pass, which
  draws no tile.
\<close>

theorem monte_carlo_playouts:
  assumes "wf_state state" and "get_legal_moves D state (current_player state) \<noteq> []"
  shows "snd (mc_find_best_move num h rnds num_playouts D state) =
     concat (map (\<lambda>(i, move). playout_events (rnds i) state move
                    (nat (playouts_per_move num_playouts
                            (length (get_legal_moves D state (current_player state))))))
               (enumerate 0 (get_legal_moves D state (current_player state))))
     \<and> (\<forall>move rnd rnd'. is_pass move \<longrightarrow> apply_move rnd state move = apply_move rnd' state move)"
  using mc_trace[OF assms(2)] apply_pass_no_draw by blast

theorem monte_carlo_playouts_witness:
  "wf_state playout_state
   \<and> get_legal_moves {''AA''} playout_state (current_player playout_state) \<noteq> []
   \<and> snd (mc_find_best_move real_numeric (\<lambda>k s p. 0) (\<lambda>i j k. j) 18 {''AA''} playout_state) =
       concat (map (\<lambda>(i, move). playout_events (\<lambda>j k. j) playout_state move 2)
                 (enumerate 0 (get_legal_moves {''AA''} playout_state 1)))
   \<and> apply_move (\<lambda>k. 0) playout_state Pass = apply_move (\<lambda>k. 1) playout_state Pass"
proof -
  have ne: "get_legal_moves {''AA''} playout_state (current_player playout_state) \<noteq> []"
    using playout_state_facts(2,4) by auto
  have ppm: "nat (playouts_per_move 18 (length (get_legal_moves {''AA''} playout_state 1))) = 2"
    by (simp add: playout_state_facts(4) playouts_per_move_def)
  have "is_pass Pass" by (simp add: Pass_def)
  then show ?thesis
    using monte_carlo_playouts[OF playout_state_facts(1) ne, of real_numeric "\<lambda>k s p. 0"
        "\<lambda>i j k. j" 18]
      ne playout_state_facts(1)
    unfolding playout_state_facts(2) ppm by auto
qed

text \<open>
  The claim as stated fails: with two playouts for each move, the first move of
  \<open>playout_state\<close> is applied twice, and the heuristic receives two different successors,
  whose pools hold G and E.
\<close>

theorem monte_carlo_successors_differ:
  "prefix
     [Applied playout_move (apply_move (\<lambda>k. 0) playout_state playout_move),
      Evaluated (apply_move (\<lambda>k. 0) playout_state playout_move) 1,
      Applied playout_move (apply_move (\<lambda>k. 1) playout_state playout_move),
      Evaluated (apply_move (\<lambda>k. 1) playout_state playout_move) 1]
     (snd (mc_find_best_move real_numeric (\<lambda>k s p. 0) (\<lambda>i j k. j) 18 {''AA''} playout_state))
   \<and> tile_pool (apply_move (\<lambda>k. 0) playout_state playout_move) = [''G'']
   \<and> tile_pool (apply_move (\<lambda>k. 1) playout_state playout_move) = [''E'']
   \<and> apply_move (\<lambda>k. 0) playout_state playout_move
       \<noteq> apply_move (\<lambda>k. 1) playout_state playout_move"
proof -
  have "apply_move (\<lambda>k. 0) playout_state playout_move
       \<noteq> apply_move (\<lambda>k. 1) playout_state playout_move"
    using playout_state_facts(5,6) by auto
  then show ?thesis
    unfolding playout_state_trace using playout_state_facts(5,6) by simp
qed

end
